theory Spec2Isabelle
  imports Complex_Main
begin

section \<open>The offline storage service (mobile/services/offline.ts)\<close>

text \<open>
  The service keeps three collections in the device's key-value store (AsyncStorage):
  the cached questions, the answers waiting for submission and a progress snapshot,
  plus the time of the last synchronisation and a small statistics object. This theory
  embeds the class \<open>OfflineService\<close> function by function.

  Conventions of the embedding:
  \<^item> a point in time is the number of milliseconds since the epoch (what
    \<open>Date.now()\<close> and \<open>getTime()\<close> return); the source stores times as ISO strings
    (\<open>toISOString\<close>) and reads them back with \<open>new Date(...)\<close>, which gives back the
    same millisecond, so the model stores the number;
  \<^item> the store holds typed values: \<open>JSON.stringify\<close> followed by \<open>JSON.parse\<close> is
    taken as the identity, a key that was never written holds \<open>None\<close>; a stored text
    that \<open>JSON.parse\<close> rejects is not modelled apart from a failing read, which the
    source handles in the same try/catch;
  \<^item> the question payload (\<open>question: any\<close>) is a type variable;
  \<^item> every reading of the clock, every answer of the network and of the remote API is
    an argument of the function that observes it, in the order the source observes them;
  \<^item> an \<open>async\<close> function is a function from the state to an outcome and a new
    state; a rejected promise (a thrown error) is the outcome \<open>Inl\<close>.
\<close>

subsection \<open>Types\<close>

type_synonym timestamp = int

record 'q CachedQuestion =
  cq_id :: string
  cq_topic_slug :: string
  cq_difficulty_tier :: int
  cq_question :: 'q
  cq_cached_at :: timestamp
  cq_expires_at :: timestamp

record PendingAnswer =
  pa_id :: string
  pa_question_id :: string
  pa_user_answer :: string
  pa_response_time_ms :: int
  pa_answered_at :: timestamp
  pa_topic_slug :: string

record OfflineProgress =
  user_id :: string
  total_xp :: int
  level :: int
  streak :: int
  topic_mastery :: "string \<Rightarrow> real option"
  last_updated :: timestamp

record SyncResult =
  synced_answers :: nat
  failed_answers :: nat
  new_xp :: int
  errors :: "string list"

text \<open>The statistics object of \<open>updateOfflineStats\<close> (it has no interface in the source).\<close>

record OfflineStats =
  questions_answered_offline :: nat
  last_offline_practice :: "timestamp option"

text \<open>The result of \<open>getOfflineStats\<close>.\<close>

record StatsSummary =
  sm_questions_answered_offline :: nat
  sm_pending_sync :: nat
  sm_cached_questions :: nat
  sm_last_sync :: "timestamp option"

text \<open>The part of \<open>AnswerResult\<close> (services/api.ts) that the service reads.\<close>

record AnswerResult =
  is_correct :: bool
  xp_earned :: "int option"

text \<open>
  What can be thrown: a failure of the key-value store, or an error of the remote API,
  given by the text that a template string prints for it (for the error that the axios
  client of services/api.ts throws, \<open>AxiosError: \<close> and the message).
\<close>

datatype exn = StorageError | ApiError string

text \<open>The calls the service makes to the remote API, as logged in the state.\<close>

datatype api_request =
  GenerateQuestion string "int option" bool
| ValidateAnswer string string int

text \<open>
  The state: the five keys of the store (\<open>STORAGE_KEYS\<close>), the two fields of the
  service object, and two components of the environment: \<open>storage_faults\<close>, the plan
  of the store's coming failures (one flag per call to the store, in call order, \<open>True\<close>
  for a call that throws; an exhausted plan means no more failures), and \<open>api_log\<close>,
  the requests sent to the remote API so far.
\<close>

record 'q state =
  offline_questions :: "'q CachedQuestion list option"
  pending_answers :: "PendingAnswer list option"
  user_progress :: "OfflineProgress option"
  last_sync :: "timestamp option"
  offline_stats :: "OfflineStats option"
  storage_faults :: "bool list"
  isOnline :: bool
  syncInProgress :: bool
  api_log :: "api_request list"

type_synonym ('a, 'q) task = "'q state \<Rightarrow> (exn + 'a) \<times> 'q state"

subsection \<open>Promises: await, try/catch, try/finally\<close>

definition resolve :: "'a \<Rightarrow> ('a, 'q) task" where
  "resolve x s = (Inr x, s)"

definition await :: "('a, 'q) task \<Rightarrow> ('a \<Rightarrow> ('b, 'q) task) \<Rightarrow> ('b, 'q) task" where
  "await m f s = (case m s of (Inl e, s') \<Rightarrow> (Inl e, s') | (Inr x, s') \<Rightarrow> f x s')"

definition try_catch :: "('a, 'q) task \<Rightarrow> (exn \<Rightarrow> ('a, 'q) task) \<Rightarrow> ('a, 'q) task" where
  "try_catch m h s = (case m s of (Inl e, s') \<Rightarrow> h e s' | (Inr x, s') \<Rightarrow> (Inr x, s'))"

definition try_finally :: "('a, 'q) task \<Rightarrow> ('q state \<Rightarrow> 'q state) \<Rightarrow> ('a, 'q) task" where
  "try_finally m fin s = (case m s of (r, s') \<Rightarrow> (r, fin s'))"

subsection \<open>The key-value store\<close>

text \<open>
  A key is given by the selector and the update function of its field. Every call to the
  store takes the next flag of the failure plan; a failing call throws and changes
  nothing else.
\<close>

definition storage_call :: "'q state \<Rightarrow> bool \<times> 'q state" where
  "storage_call s =
     (case storage_faults s of
        [] \<Rightarrow> (False, s)
      | f # fs \<Rightarrow> (f, s\<lparr>storage_faults := fs\<rparr>))"

definition getItem :: "('q state \<Rightarrow> 'v option) \<Rightarrow> ('v option, 'q) task" where
  "getItem key s =
     (case storage_call s of
        (True, s') \<Rightarrow> (Inl StorageError, s')
      | (False, s') \<Rightarrow> (Inr (key s'), s'))"

definition setItem ::
  "(('v option \<Rightarrow> 'v option) \<Rightarrow> 'q state \<Rightarrow> 'q state) \<Rightarrow> 'v \<Rightarrow> (unit, 'q) task" where
  "setItem key_update v s =
     (case storage_call s of
        (True, s') \<Rightarrow> (Inl StorageError, s')
      | (False, s') \<Rightarrow> (Inr (), key_update (\<lambda>_. Some v) s'))"

definition removeItem ::
  "(('v option \<Rightarrow> 'v option) \<Rightarrow> 'q state \<Rightarrow> 'q state) \<Rightarrow> (unit, 'q) task" where
  "removeItem key_update s =
     (case storage_call s of
        (True, s') \<Rightarrow> (Inl StorageError, s')
      | (False, s') \<Rightarrow> (Inr (), key_update (\<lambda>_. None) s'))"

subsection \<open>Network state and the remote API\<close>

text \<open>
  \<open>checkOnline\<close>: \<open>isConnected\<close> is \<open>state.isConnected\<close> as \<open>NetInfo.fetch()\<close> reports
  it (a boolean or null).
\<close>

definition checkOnline :: "bool option \<Rightarrow> (bool, 'q) task" where
  "checkOnline isConnected s =
     (let online = (case isConnected of None \<Rightarrow> False | Some b \<Rightarrow> b)
      in (Inr online, s\<lparr>isOnline := online\<rparr>))"

text \<open>
  The two functions of services/api.ts the service calls. The outcome of the call (the
  response, or the error the call throws) is given; the request is logged.
\<close>

definition generateQuestion ::
  "exn + 'q \<Rightarrow> string \<Rightarrow> int option \<Rightarrow> bool \<Rightarrow> ('q, 'q) task" where
  "generateQuestion outcome topic_slug difficulty multiple_choice s =
     (outcome, s\<lparr>api_log := api_log s @ [GenerateQuestion topic_slug difficulty multiple_choice]\<rparr>)"

definition validateAnswer ::
  "exn + AnswerResult \<Rightarrow> string \<Rightarrow> string \<Rightarrow> int \<Rightarrow> (AnswerResult, 'q) task" where
  "validateAnswer outcome question_id user_answer response_time_ms s =
     (outcome, s\<lparr>api_log := api_log s @ [ValidateAnswer question_id user_answer response_time_ms]\<rparr>)"

subsection \<open>Template strings\<close>

text \<open>
  The decimal form of a number, as a template string prints an integer; \<open>digit_char\<close>
  is only applied to a digit value below ten.
\<close>

definition digit_char :: "nat \<Rightarrow> char" where
  "digit_char d = ''0123456789'' ! d"

fun digits :: "nat \<Rightarrow> string" where
  "digits n = (if n < 10 then [digit_char n] else digits (n div 10) @ [digit_char (n mod 10)])"

declare digits.simps [simp del]

definition show_int :: "int \<Rightarrow> string" where
  "show_int i = (if i < 0 then CHR ''-'' # digits (nat (- i)) else digits (nat i))"

text \<open>How \<open>${error}\<close> prints a thrown value.\<close>

fun error_text :: "exn \<Rightarrow> string" where
  "error_text StorageError = ''Error: storage failure''"
| "error_text (ApiError printed) = printed"

subsection \<open>Question caching\<close>

text \<open>The time to live of a cached question: \<open>24 * 60 * 60 * 1000\<close> milliseconds.\<close>

definition TTL :: int where
  "TTL = 24 * 60 * 60 * 1000"

text \<open>
  \<open>getCachedQuestions(topic_slug?)\<close>: \<open>now\<close> is the reading of \<open>new Date()\<close>. An
  absent or empty \<open>topic_slug\<close> is falsy and selects every topic. Whatever the body
  throws is caught and gives the empty list.
\<close>

definition getCachedQuestions ::
  "timestamp \<Rightarrow> string option \<Rightarrow> ('q CachedQuestion list, 'q) task" where
  "getCachedQuestions now topic_slug =
     try_catch
       (await (getItem offline_questions) (\<lambda>data.
          case data of
            None \<Rightarrow> resolve []
          | Some questions \<Rightarrow>
              (let questions1 = filter (\<lambda>q. cq_expires_at q > now) questions;
                   questions2 =
                     (case topic_slug of
                        None \<Rightarrow> questions1
                      | Some t \<Rightarrow>
                          if t \<noteq> [] then filter (\<lambda>q. cq_topic_slug q = t) questions1
                          else questions1)
               in resolve questions2)))
       (\<lambda>error. resolve [])"

text \<open>
  The loop of \<open>cacheQuestions\<close>, from index \<open>i\<close> on: \<open>fetch i\<close> is the outcome of the
  \<open>i\<close>-th call of \<open>generateQuestion\<close> and \<open>clock i\<close> the reading of \<open>Date.now()\<close>
  when its question is pushed. A failed fetch is caught and skipped.
\<close>

function cache_loop ::
  "(nat \<Rightarrow> exn + 'q) \<Rightarrow> (nat \<Rightarrow> timestamp) \<Rightarrow> string \<Rightarrow> int option \<Rightarrow> timestamp \<Rightarrow> timestamp \<Rightarrow>
   nat \<Rightarrow> nat \<Rightarrow> 'q CachedQuestion list \<Rightarrow> ('q CachedQuestion list, 'q) task" where
  "cache_loop fetch clock topic_slug difficulty_tier now expires count i cached s =
     (if i < count then
        (case generateQuestion (fetch i) topic_slug difficulty_tier True s of
           (Inr question, s') \<Rightarrow>
             cache_loop fetch clock topic_slug difficulty_tier now expires count (Suc i)
               (cached @
                [\<lparr>cq_id = ''cached_'' @ show_int (clock i) @ ''_'' @ digits i,
                  cq_topic_slug = topic_slug,
                  cq_difficulty_tier =
                    (case difficulty_tier of None \<Rightarrow> 1 | Some d \<Rightarrow> if d = 0 then 1 else d),
                  cq_question = question,
                  cq_cached_at = now,
                  cq_expires_at = expires\<rparr>]) s'
         | (Inl error, s') \<Rightarrow>
             cache_loop fetch clock topic_slug difficulty_tier now expires count (Suc i) cached s')
      else (Inr cached, s))"
  by pat_completeness auto
termination
  by (relation "measure (\<lambda>(fetch, clock, topic_slug, difficulty_tier, now, expires, count, i, cached, s). count - i)")
     auto

declare cache_loop.simps [simp del]

text \<open>
  The filter that drops the expired questions before \<open>cacheQuestions\<close> writes: its
  predicate reads the clock (\<open>new Date()\<close>) once for every element, \<open>sweep k\<close> being
  the reading for the element at position \<open>k\<close>.
\<close>

fun filter_valid :: "(nat \<Rightarrow> timestamp) \<Rightarrow> nat \<Rightarrow> 'q CachedQuestion list \<Rightarrow> 'q CachedQuestion list" where
  "filter_valid sweep k [] = []"
| "filter_valid sweep k (q # qs) =
     (if cq_expires_at q > sweep k then q # filter_valid sweep (Suc k) qs
      else filter_valid sweep (Suc k) qs)"

text \<open>
  \<open>cacheQuestions(topic_slug, count, difficulty_tier?)\<close>: \<open>isConnected\<close> is the answer
  of the network check, \<open>now\<close> the reading of \<open>new Date()\<close> before the loop,
  \<open>read_at\<close> the reading inside \<open>getCachedQuestions\<close>.
\<close>

definition cacheQuestions ::
  "bool option \<Rightarrow> timestamp \<Rightarrow> (nat \<Rightarrow> exn + 'q) \<Rightarrow> (nat \<Rightarrow> timestamp) \<Rightarrow> timestamp \<Rightarrow>
   (nat \<Rightarrow> timestamp) \<Rightarrow> string \<Rightarrow> nat \<Rightarrow> int option \<Rightarrow> (nat, 'q) task" where
  "cacheQuestions isConnected now fetch clock read_at sweep topic_slug count difficulty_tier =
     await (checkOnline isConnected) (\<lambda>online.
       if \<not> online then resolve 0
       else
         (let expires = now + TTL
          in await (cache_loop fetch clock topic_slug difficulty_tier now expires count 0 []) (\<lambda>cached.
             await (getCachedQuestions read_at None) (\<lambda>existing.
               (let merged = existing @ cached;
                    valid = filter_valid sweep 0 merged
                in await (setItem offline_questions_update valid) (\<lambda>_.
                     resolve (length cached)))))))"

text \<open>
  \<open>getOfflineQuestion(topic_slug)\<close>, up to the write: the result is the cached question
  \<open>first\<close> that the function picks (or \<open>None\<close> for \<open>null\<close>); \<open>now1\<close> and \<open>now2\<close>
  are the clock readings of the two calls of \<open>getCachedQuestions\<close>.
\<close>

definition take_first ::
  "timestamp \<Rightarrow> timestamp \<Rightarrow> string \<Rightarrow> ('q CachedQuestion option, 'q) task" where
  "take_first now1 now2 topic_slug =
     await (getCachedQuestions now1 (Some topic_slug)) (\<lambda>questions.
       case questions of
         [] \<Rightarrow> resolve None
       | first # rest \<Rightarrow>
           await (getCachedQuestions now2 None) (\<lambda>allQuestions.
             (let updated = filter (\<lambda>q. cq_id q \<noteq> cq_id first) allQuestions
              in await (setItem offline_questions_update updated) (\<lambda>_.
                   resolve (Some first)))))"

text \<open>\<open>getOfflineQuestion\<close> returns the payload of the question picked.\<close>

definition getOfflineQuestion ::
  "timestamp \<Rightarrow> timestamp \<Rightarrow> string \<Rightarrow> ('q option, 'q) task" where
  "getOfflineQuestion now1 now2 topic_slug =
     await (take_first now1 now2 topic_slug) (\<lambda>first. resolve (map_option cq_question first))"

text \<open>
  \<open>getOfflineQuestion\<close> cut at the await of its second read of the cache, so that two
  calls that overlap in time can be followed. \<open>take_pick\<close> is the call from the answer
  of its first read up to that await: it returns \<open>None\<close> when the function returns null,
  and otherwise the question \<open>first\<close> it has picked; nothing is written up to there.
  \<open>take_remove\<close> goes on from the answer of the second read to the return.
\<close>

definition take_pick :: "timestamp \<Rightarrow> string \<Rightarrow> ('q CachedQuestion option, 'q) task" where
  "take_pick now1 topic_slug =
     await (getCachedQuestions now1 (Some topic_slug)) (\<lambda>questions.
       case questions of
         [] \<Rightarrow> resolve None
       | first # rest \<Rightarrow> resolve (Some first))"

definition take_remove ::
  "timestamp \<Rightarrow> 'q CachedQuestion \<Rightarrow> ('q CachedQuestion option, 'q) task" where
  "take_remove now2 first =
     await (getCachedQuestions now2 None) (\<lambda>allQuestions.
       (let updated = filter (\<lambda>q. cq_id q \<noteq> cq_id first) allQuestions
        in await (setItem offline_questions_update updated) (\<lambda>_.
             resolve (Some first))))"

definition getCacheCount :: "timestamp \<Rightarrow> string option \<Rightarrow> (nat, 'q) task" where
  "getCacheCount now topic_slug =
     await (getCachedQuestions now topic_slug) (\<lambda>questions. resolve (length questions))"

text \<open>
  \<open>clearExpiredCache()\<close>: \<open>read_at\<close> is the clock reading inside
  \<open>getCachedQuestions\<close>, \<open>now\<close> the one the function takes itself.
\<close>

definition clearExpiredCache :: "timestamp \<Rightarrow> timestamp \<Rightarrow> (nat, 'q) task" where
  "clearExpiredCache read_at now =
     await (getCachedQuestions read_at None) (\<lambda>questions.
       (let valid = filter (\<lambda>q. cq_expires_at q > now) questions;
            removed = length questions - length valid
        in await (setItem offline_questions_update valid) (\<lambda>_. resolve removed)))"

subsection \<open>Offline statistics\<close>

text \<open>
  \<open>updateOfflineStats(answeredQuestion)\<close>: the whole body is inside try/catch, so a
  failure of the store is logged and dropped.
\<close>

definition updateOfflineStats :: "timestamp \<Rightarrow> bool \<Rightarrow> (unit, 'q) task" where
  "updateOfflineStats now answeredQuestion =
     try_catch
       (await (getItem offline_stats) (\<lambda>data.
          (let stats0 =
                 (case data of
                    Some st \<Rightarrow> st
                  | None \<Rightarrow> \<lparr>questions_answered_offline = 0, last_offline_practice = None\<rparr>);
               stats =
                 (if answeredQuestion
                  then \<lparr>questions_answered_offline = questions_answered_offline stats0 + 1,
                        last_offline_practice = Some now\<rparr>
                  else stats0)
           in setItem offline_stats_update stats)))
       (\<lambda>error. resolve ())"

subsection \<open>Answer queueing\<close>

definition getPendingAnswers :: "(PendingAnswer list, 'q) task" where
  "getPendingAnswers =
     try_catch
       (await (getItem pending_answers) (\<lambda>data.
          case data of None \<Rightarrow> resolve [] | Some answers \<Rightarrow> resolve answers))
       (\<lambda>error. resolve [])"

text \<open>
  \<open>queueAnswer\<close>: \<open>id_at\<close> is the reading of \<open>Date.now()\<close> in the identifier,
  \<open>answered\<close> the reading of \<open>new Date()\<close> for \<open>answered_at\<close>, \<open>stats_at\<close> the
  reading inside \<open>updateOfflineStats\<close>.
\<close>

definition queueAnswer ::
  "timestamp \<Rightarrow> timestamp \<Rightarrow> timestamp \<Rightarrow> string \<Rightarrow> string \<Rightarrow> int \<Rightarrow> string \<Rightarrow> (unit, 'q) task" where
  "queueAnswer id_at answered stats_at question_id user_answer response_time_ms topic_slug =
     (let pending =
            \<lparr>pa_id = ''pending_'' @ show_int id_at,
             pa_question_id = question_id,
             pa_user_answer = user_answer,
             pa_response_time_ms = response_time_ms,
             pa_answered_at = answered,
             pa_topic_slug = topic_slug\<rparr>
      in await getPendingAnswers (\<lambda>existing.
           await (setItem pending_answers_update (existing @ [pending])) (\<lambda>_.
             updateOfflineStats stats_at True)))"

subsection \<open>Synchronisation\<close>

text \<open>
  The loop of \<open>syncPendingAnswers\<close> over the pending answers: \<open>respond k\<close> is the
  outcome of \<open>validateAnswer\<close> for the answer at position \<open>k\<close> of the list read.
\<close>

fun sync_loop ::
  "(nat \<Rightarrow> exn + AnswerResult) \<Rightarrow> nat \<Rightarrow> PendingAnswer list \<Rightarrow> SyncResult \<Rightarrow> PendingAnswer list \<Rightarrow>
   'q state \<Rightarrow> (SyncResult \<times> PendingAnswer list) \<times> 'q state" where
  "sync_loop respond k [] result remaining s = ((result, remaining), s)"
| "sync_loop respond k (answer # rest) result remaining s =
     (case validateAnswer (respond k) (pa_question_id answer) (pa_user_answer answer)
             (pa_response_time_ms answer) s of
        (Inr response, s') \<Rightarrow>
          sync_loop respond (Suc k) rest
            (result\<lparr>synced_answers := synced_answers result + 1,
                    new_xp :=
                      (case xp_earned response of
                         None \<Rightarrow> new_xp result
                       | Some xp \<Rightarrow> if xp \<noteq> 0 then new_xp result + xp else new_xp result)\<rparr>)
            remaining s'
      | (Inl error, s') \<Rightarrow>
          sync_loop respond (Suc k) rest
            (result\<lparr>failed_answers := failed_answers result + 1,
                    errors := errors result @
                      [''Failed to sync answer '' @ pa_id answer @ '': '' @ error_text error]\<rparr>)
            (remaining @ [answer]) s')"

text \<open>
  \<open>syncPendingAnswers()\<close>: \<open>isConnected\<close> is the answer of the network check,
  \<open>synced_at\<close> the reading of \<open>new Date()\<close> for the last-sync time.
\<close>

definition syncPendingAnswers ::
  "bool option \<Rightarrow> (nat \<Rightarrow> exn + AnswerResult) \<Rightarrow> timestamp \<Rightarrow> (SyncResult, 'q) task" where
  "syncPendingAnswers isConnected respond synced_at s =
     (if syncInProgress s then
        (Inr \<lparr>synced_answers = 0, failed_answers = 0, new_xp = 0,
              errors = [''Sync already in progress'']\<rparr>, s)
      else
        await (checkOnline isConnected) (\<lambda>online.
          if \<not> online then
            resolve \<lparr>synced_answers = 0, failed_answers = 0, new_xp = 0,
                     errors = [''Device is offline'']\<rparr>
          else (\<lambda>s1.
            try_finally
              (await getPendingAnswers (\<lambda>pending s2.
                 (case sync_loop respond 0 pending
                         \<lparr>synced_answers = 0, failed_answers = 0, new_xp = 0, errors = []\<rparr> [] s2 of
                    ((result, remaining), s3) \<Rightarrow>
                      await (setItem pending_answers_update remaining) (\<lambda>_.
                        await (setItem last_sync_update synced_at) (\<lambda>_.
                          resolve result)) s3)))
              (\<lambda>s4. s4\<lparr>syncInProgress := False\<rparr>)
              (s1\<lparr>syncInProgress := True\<rparr>))) s)"

text \<open>
  The same function cut at its first two suspension points, so that two calls that
  overlap in time can be followed: a call runs until it awaits, other code runs, and the
  call goes on when the awaited answer arrives.
  \<^item> \<open>sync_until_check\<close> is the call up to \<open>await this.checkOnline()\<close>: it returns
    the result when the guard returns, and \<open>None\<close> when the call is now suspended in
    the network check; nothing is written before that point;
  \<^item> \<open>sync_after_check\<close> goes on from the answer of the network check to
    \<open>await this.getPendingAnswers()\<close>: it returns the result when the device is
    offline, and otherwise sets \<open>syncInProgress\<close> and is suspended in the read (\<open>None\<close>);
  \<^item> \<open>sync_after_read\<close> goes on from the list read to the return: the loop, the two
    writes and the \<open>finally\<close> block.
\<close>

definition sync_until_check :: "'q state \<Rightarrow> SyncResult option" where
  "sync_until_check s =
     (if syncInProgress s then
        Some \<lparr>synced_answers = 0, failed_answers = 0, new_xp = 0,
              errors = [''Sync already in progress'']\<rparr>
      else None)"

definition sync_after_check :: "bool option \<Rightarrow> (SyncResult option, 'q) task" where
  "sync_after_check isConnected =
     await (checkOnline isConnected) (\<lambda>online s1.
       if \<not> online then
         (Inr (Some \<lparr>synced_answers = 0, failed_answers = 0, new_xp = 0,
                    errors = [''Device is offline'']\<rparr>), s1)
       else (Inr None, s1\<lparr>syncInProgress := True\<rparr>))"

definition sync_after_read ::
  "(nat \<Rightarrow> exn + AnswerResult) \<Rightarrow> timestamp \<Rightarrow> PendingAnswer list \<Rightarrow> (SyncResult, 'q) task" where
  "sync_after_read respond synced_at pending =
     try_finally
       (\<lambda>s2.
          (case sync_loop respond 0 pending
                  \<lparr>synced_answers = 0, failed_answers = 0, new_xp = 0, errors = []\<rparr> [] s2 of
             ((result, remaining), s3) \<Rightarrow>
               await (setItem pending_answers_update remaining) (\<lambda>_.
                 await (setItem last_sync_update synced_at) (\<lambda>_.
                   resolve result)) s3))
       (\<lambda>s4. s4\<lparr>syncInProgress := False\<rparr>)"

subsection \<open>Progress storage\<close>

definition saveProgress :: "timestamp \<Rightarrow> OfflineProgress \<Rightarrow> (unit, 'q) task" where
  "saveProgress now progress =
     setItem user_progress_update (progress\<lparr>last_updated := now\<rparr>)"

definition getProgress :: "(OfflineProgress option, 'q) task" where
  "getProgress =
     try_catch (getItem user_progress) (\<lambda>error. resolve None)"

definition updateLocalMastery :: "timestamp \<Rightarrow> string \<Rightarrow> real \<Rightarrow> (unit, 'q) task" where
  "updateLocalMastery now topic_slug mastery =
     await getProgress (\<lambda>progress.
       case progress of
         Some p \<Rightarrow>
           saveProgress now (p\<lparr>topic_mastery := (topic_mastery p)(topic_slug \<mapsto> mastery)\<rparr>)
       | None \<Rightarrow> resolve ())"

subsection \<open>Statistics summary and clearing\<close>

text \<open>
  \<open>Promise.all\<close> of two promises: both calls are started, in this order, and the result
  is rejected when one of them is.
\<close>

definition both :: "('a, 'q) task \<Rightarrow> ('b, 'q) task \<Rightarrow> ('a \<times> 'b, 'q) task" where
  "both m1 m2 s =
     (case m1 s of (r1, s1) \<Rightarrow>
        (case m2 s1 of (r2, s2) \<Rightarrow>
           ((case r1 of
               Inl e \<Rightarrow> Inl e
             | Inr x \<Rightarrow> (case r2 of Inl e \<Rightarrow> Inl e | Inr y \<Rightarrow> Inr (x, y))), s2)))"

text \<open>\<open>getOfflineStats()\<close>: \<open>now\<close> is the clock reading inside \<open>getCachedQuestions\<close>.\<close>

definition getOfflineStats :: "timestamp \<Rightarrow> (StatsSummary, 'q) task" where
  "getOfflineStats now =
     try_catch
       (await (both (getItem offline_stats)
                 (both (getItem last_sync)
                    (both getPendingAnswers (getCachedQuestions now None))))
          (\<lambda>(statsData, lastSync, pending, cached).
             (let answered =
                    (case statsData of None \<Rightarrow> 0 | Some st \<Rightarrow> questions_answered_offline st)
              in resolve
                   \<lparr>sm_questions_answered_offline = answered,
                    sm_pending_sync = length pending,
                    sm_cached_questions = length cached,
                    sm_last_sync = lastSync\<rparr>)))
       (\<lambda>error.
          resolve
            \<lparr>sm_questions_answered_offline = 0,
             sm_pending_sync = 0,
             sm_cached_questions = 0,
             sm_last_sync = None\<rparr>)"

definition clearAllData :: "(unit, 'q) task" where
  "clearAllData =
     await (both (removeItem offline_questions_update)
              (both (removeItem pending_answers_update)
                 (both (removeItem user_progress_update) (removeItem offline_stats_update))))
       (\<lambda>_. resolve ())"

subsection \<open>Reading the state; histories of cache operations\<close>

text \<open>The service as constructed over a store that was never written.\<close>

definition initial_state :: "'q state" where
  "initial_state =
     \<lparr>offline_questions = None, pending_answers = None, user_progress = None,
      last_sync = None, offline_stats = None, storage_faults = [],
      isOnline = True, syncInProgress = False, api_log = []\<rparr>"

text \<open>The two persisted collections, an unwritten key being the empty collection.\<close>

definition cached_list :: "'q state \<Rightarrow> 'q CachedQuestion list" where
  "cached_list s = (case offline_questions s of None \<Rightarrow> [] | Some qs \<Rightarrow> qs)"

definition pending_list :: "'q state \<Rightarrow> PendingAnswer list" where
  "pending_list s = (case pending_answers s of None \<Rightarrow> [] | Some answers \<Rightarrow> answers)"

text \<open>The test \<open>getCachedQuestions\<close> applies for its optional topic.\<close>

definition topic_match :: "string option \<Rightarrow> 'q CachedQuestion \<Rightarrow> bool" where
  "topic_match topic_slug q =
     (case topic_slug of None \<Rightarrow> True | Some t \<Rightarrow> t = [] \<or> cq_topic_slug q = t)"

text \<open>The request \<open>syncPendingAnswers\<close> sends for a pending answer.\<close>

definition submission :: "PendingAnswer \<Rightarrow> api_request" where
  "submission a =
     ValidateAnswer (pa_question_id a) (pa_user_answer a) (pa_response_time_ms a)"

text \<open>The reward a response carries; a response without \<open>xp_earned\<close> carries none.\<close>

definition reward :: "AnswerResult \<Rightarrow> int" where
  "reward r = (case xp_earned r of None \<Rightarrow> 0 | Some xp \<Rightarrow> xp)"

text \<open>
  The cached questions that the loop of \<open>cacheQuestions\<close> builds for the indices
  \<open>js\<close>: one for every index whose fetch succeeded, in index order.
\<close>

definition new_entries ::
  "(nat \<Rightarrow> exn + 'q) \<Rightarrow> (nat \<Rightarrow> timestamp) \<Rightarrow> string \<Rightarrow> int option \<Rightarrow> timestamp \<Rightarrow> timestamp \<Rightarrow>
   nat list \<Rightarrow> 'q CachedQuestion list" where
  "new_entries fetch clock topic_slug difficulty_tier now expires js =
     concat (map (\<lambda>j.
       case fetch j of
         Inl error \<Rightarrow> []
       | Inr question \<Rightarrow>
           [\<lparr>cq_id = ''cached_'' @ show_int (clock j) @ ''_'' @ digits j,
             cq_topic_slug = topic_slug,
             cq_difficulty_tier =
               (case difficulty_tier of None \<Rightarrow> 1 | Some d \<Rightarrow> if d = 0 then 1 else d),
             cq_question = question,
             cq_cached_at = now,
             cq_expires_at = expires\<rparr>]) js)"

text \<open>
  A history of the cache: calls of \<open>cacheQuestions\<close> and \<open>getOfflineQuestion\<close>, each
  with what it observes of its environment. Running a history collects, in order, the
  identifiers of the cached questions that the calls of \<open>getOfflineQuestion\<close> returned.
\<close>

datatype 'q cache_op =
  Fill "bool option" timestamp "nat \<Rightarrow> exn + 'q" "nat \<Rightarrow> timestamp" timestamp
    "nat \<Rightarrow> timestamp" string nat "int option"
| Take timestamp timestamp string

fun cache_step :: "'q cache_op \<Rightarrow> string list \<times> 'q state \<Rightarrow> string list \<times> 'q state" where
  "cache_step (Fill isConnected now fetch clock read_at sweep topic_slug count difficulty_tier)
     (taken, s) =
     (taken,
      snd (cacheQuestions isConnected now fetch clock read_at sweep topic_slug count
             difficulty_tier s))"
| "cache_step (Take now1 now2 topic_slug) (taken, s) =
     (case take_first now1 now2 topic_slug s of
        (Inr (Some first), s') \<Rightarrow> (taken @ [cq_id first], s')
      | (Inr None, s') \<Rightarrow> (taken, s')
      | (Inl error, s') \<Rightarrow> (taken, s'))"

definition run_cache_ops :: "'q cache_op list \<Rightarrow> 'q state \<Rightarrow> string list \<times> 'q state" where
  "run_cache_ops ops s = fold cache_step ops ([], s)"

text \<open>
  The clock readings that a call of \<open>cacheQuestions\<close> puts into identifiers: those of
  its successful fetches, when the call found the device online.
\<close>

definition id_stamps ::
  "bool option \<Rightarrow> (nat \<Rightarrow> exn + 'q) \<Rightarrow> (nat \<Rightarrow> timestamp) \<Rightarrow> nat \<Rightarrow> timestamp list" where
  "id_stamps isConnected fetch clock count =
     (if isConnected = Some True
      then map clock (filter (\<lambda>i. \<not> isl (fetch i)) [0..<count])
      else [])"

text \<open>
  A bound on the readings used so far (\<open>None\<close> when none was used), a reading later
  than the bound, and the bound after one more reading.
\<close>

definition later_than :: "timestamp option \<Rightarrow> timestamp \<Rightarrow> bool" where
  "later_than bound t = (case bound of None \<Rightarrow> True | Some hi \<Rightarrow> hi < t)"

definition raise_bound :: "timestamp \<Rightarrow> timestamp option \<Rightarrow> timestamp option" where
  "raise_bound t bound = (case bound of None \<Rightarrow> Some t | Some hi \<Rightarrow> Some (max hi t))"

text \<open>
  A history in which the readings that every call of \<open>cacheQuestions\<close> puts into
  identifiers are later than the bound and than the readings that earlier calls put into
  identifiers.
\<close>

fun fresh_stamps :: "timestamp option \<Rightarrow> 'q cache_op list \<Rightarrow> bool" where
  "fresh_stamps bound [] = True"
| "fresh_stamps bound
     (Fill isConnected now fetch clock read_at sweep topic_slug count difficulty_tier # ops) =
     (list_all (later_than bound) (id_stamps isConnected fetch clock count) \<and>
      fresh_stamps (fold raise_bound (id_stamps isConnected fetch clock count) bound) ops)"
| "fresh_stamps bound (Take now1 now2 topic_slug # ops) = fresh_stamps bound ops"

text \<open>
  An identifier that \<open>cacheQuestions\<close> built from a clock reading within the bound.
\<close>

definition stamped :: "timestamp option \<Rightarrow> string \<Rightarrow> bool" where
  "stamped bound x =
     (\<exists>t i hi. bound = Some hi \<and> x = ''cached_'' @ show_int t @ ''_'' @ digits i \<and> t \<le> hi)"

subsection \<open>Basic facts\<close>

lemmas task_defs = resolve_def await_def try_catch_def try_finally_def
  storage_call_def getItem_def setItem_def removeItem_def

lemma upt_from: "[k..<k + length (a # P)] = k # [Suc k..<Suc k + length P]"
proof -
  have "[k..<k + length (a # P)] = k # [Suc k..<k + length (a # P)]"
    by (rule upt_conv_Cons) simp
  then show ?thesis by simp
qed

lemma getCachedQuestions_ok:
  "storage_faults s = [] \<Longrightarrow>
   getCachedQuestions now topic s =
     (Inr (filter (topic_match topic) (filter (\<lambda>q. now < cq_expires_at q) (cached_list s))), s)"
  by (auto simp: getCachedQuestions_def task_defs cached_list_def Let_def topic_match_def
           split: option.splits)

lemma getCachedQuestions_fault:
  "storage_faults s = True # fs \<Longrightarrow>
   getCachedQuestions now topic s = (Inr [], s\<lparr>storage_faults := fs\<rparr>)"
  by (simp add: getCachedQuestions_def task_defs)

lemma getCachedQuestions_no_fault:
  "storage_faults s = False # fs \<Longrightarrow>
   getCachedQuestions now topic s =
     (Inr (filter (topic_match topic) (filter (\<lambda>q. now < cq_expires_at q) (cached_list s))),
      s\<lparr>storage_faults := fs\<rparr>)"
  by (auto simp: getCachedQuestions_def task_defs cached_list_def Let_def topic_match_def
           split: option.splits)

lemma getCachedQuestions_cases:
  obtains s' where "getCachedQuestions now topic s = (Inr [], s')"
      and "s' = s\<lparr>storage_faults := tl (storage_faults s)\<rparr>"
  | s' where "getCachedQuestions now topic s =
       (Inr (filter (topic_match topic) (filter (\<lambda>q. now < cq_expires_at q) (cached_list s))), s')"
      and "s' = s\<lparr>storage_faults := tl (storage_faults s)\<rparr>"
proof (cases "storage_faults s")
  case Nil
  then have "s\<lparr>storage_faults := tl (storage_faults s)\<rparr> = s" by simp
  with getCachedQuestions_ok [OF Nil, of now topic] that(2) show ?thesis by simp
next
  case (Cons f fs)
  show ?thesis
  proof (cases f)
    case True
    with Cons getCachedQuestions_fault [of s fs now topic] that(1) show ?thesis by simp
  next
    case False
    with Cons getCachedQuestions_no_fault [of s fs now topic] that(2) show ?thesis by simp
  qed
qed

lemma getPendingAnswers_ok:
  "storage_faults s = [] \<Longrightarrow> getPendingAnswers s = (Inr (pending_list s), s)"
  by (simp add: getPendingAnswers_def task_defs pending_list_def split: option.splits)

lemma getPendingAnswers_resolves:
  "\<exists>pending. getPendingAnswers s = (Inr pending, s\<lparr>storage_faults := tl (storage_faults s)\<rparr>)"
  by (cases "storage_faults s")
     (auto simp: getPendingAnswers_def task_defs split: option.splits bool.splits)

subsection \<open>The synchronisation loop\<close>

lemma sync_loop_state:
  "snd (sync_loop respond k P result remaining s) = s\<lparr>api_log := api_log s @ map submission P\<rparr>"
  by (induction P arbitrary: k result remaining s)
     (auto simp: validateAnswer_def submission_def split: sum.splits)

lemma sync_loop_remaining:
  "snd (fst (sync_loop respond k P result remaining s)) =
     remaining @ map fst (filter (\<lambda>(a, r). isl r) (zip P (map respond [k..<k + length P])))"
proof (induction P arbitrary: k result remaining s)
  case Nil
  then show ?case by simp
next
  case (Cons a P)
  show ?case
    unfolding upt_from by (cases "respond k") (simp_all add: validateAnswer_def Cons.IH)
qed

lemma sync_loop_synced:
  "synced_answers (fst (fst (sync_loop respond k P result remaining s))) =
     synced_answers result + length (filter (\<lambda>r. \<not> isl r) (map respond [k..<k + length P]))"
proof (induction P arbitrary: k result remaining s)
  case Nil
  then show ?case by simp
next
  case (Cons a P)
  show ?case
    unfolding upt_from by (cases "respond k") (simp_all add: validateAnswer_def Cons.IH)
qed

lemma sync_loop_failed:
  "failed_answers (fst (fst (sync_loop respond k P result remaining s))) =
     failed_answers result + length (filter isl (map respond [k..<k + length P]))"
proof (induction P arbitrary: k result remaining s)
  case Nil
  then show ?case by simp
next
  case (Cons a P)
  show ?case
    unfolding upt_from by (cases "respond k") (simp_all add: validateAnswer_def Cons.IH)
qed

lemma sync_loop_new_xp:
  "new_xp (fst (fst (sync_loop respond k P result remaining s))) =
     new_xp result +
     sum_list (map (\<lambda>r. case r of Inl e \<Rightarrow> 0 | Inr a \<Rightarrow> reward a) (map respond [k..<k + length P]))"
proof (induction P arbitrary: k result remaining s)
  case Nil
  then show ?case by simp
next
  case (Cons a P)
  show ?case
    unfolding upt_from
    by (cases "respond k") (simp_all add: validateAnswer_def Cons.IH reward_def split: option.splits)
qed

text \<open>
  C1. A drain that runs to completion (no drain in progress, the device online, the store
  working) submits every pending answer, in queue order, and nothing else. Afterwards
  the stored queue holds exactly the answers whose submission threw, in their original
  order; the result counts the accepted submissions, the failed ones, and adds up the
  rewards of the accepted ones. The time of the run is stored and the guard released.
\<close>

theorem drain_partitions_queue:
  assumes "\<not> syncInProgress s" and "storage_faults s = []"
  shows "\<exists>result s'.
     syncPendingAnswers (Some True) respond synced_at s = (Inr result, s') \<and>
     api_log s' = api_log s @ map submission (pending_list s) \<and>
     pending_answers s' =
       Some (map fst (filter (\<lambda>(a, r). isl r)
              (zip (pending_list s) (map respond [0..<length (pending_list s)])))) \<and>
     synced_answers result =
       length (filter (\<lambda>r. \<not> isl r) (map respond [0..<length (pending_list s)])) \<and>
     failed_answers result =
       length (filter isl (map respond [0..<length (pending_list s)])) \<and>
     new_xp result =
       sum_list (map (\<lambda>r. case r of Inl e \<Rightarrow> 0 | Inr a \<Rightarrow> reward a)
                  (map respond [0..<length (pending_list s)])) \<and>
     last_sync s' = Some synced_at \<and> \<not> syncInProgress s'"
proof -
  let ?s1 = "s\<lparr>isOnline := True, syncInProgress := True\<rparr>"
  let ?r0 = "\<lparr>synced_answers = 0, failed_answers = 0, new_xp = 0, errors = []\<rparr>"
  obtain result remaining s3 where
    loop: "sync_loop respond 0 (pending_list s) ?r0 [] ?s1 = ((result, remaining), s3)"
    by (metis surj_pair)
  have s3: "s3 = ?s1\<lparr>api_log := api_log s @ map submission (pending_list s)\<rparr>"
    using sync_loop_state [of respond 0 "pending_list s" ?r0 "[]" ?s1] loop by simp
  have pend: "getPendingAnswers ?s1 = (Inr (pending_list s), ?s1)"
    using getPendingAnswers_ok [of ?s1] assms(2) by (simp add: pending_list_def)
  have run: "syncPendingAnswers (Some True) respond synced_at s =
      (Inr result, s3\<lparr>pending_answers := Some remaining, last_sync := Some synced_at,
                      syncInProgress := False\<rparr>)"
    using assms loop pend
    by (simp add: syncPendingAnswers_def checkOnline_def task_defs s3)
  have rem: "remaining = map fst (filter (\<lambda>(a, r). isl r)
              (zip (pending_list s) (map respond [0..<length (pending_list s)])))"
    using sync_loop_remaining [of respond 0 "pending_list s" ?r0 "[]" ?s1] loop by simp
  have syn: "synced_answers result =
       length (filter (\<lambda>r. \<not> isl r) (map respond [0..<length (pending_list s)]))"
    using sync_loop_synced [of respond 0 "pending_list s" ?r0 "[]" ?s1] loop by simp
  have fai: "failed_answers result =
       length (filter isl (map respond [0..<length (pending_list s)]))"
    using sync_loop_failed [of respond 0 "pending_list s" ?r0 "[]" ?s1] loop by simp
  have xp: "new_xp result =
       sum_list (map (\<lambda>r. case r of Inl e \<Rightarrow> 0 | Inr a \<Rightarrow> reward a)
                  (map respond [0..<length (pending_list s)]))"
    using sync_loop_new_xp [of respond 0 "pending_list s" ?r0 "[]" ?s1] loop by simp
  show ?thesis
    unfolding run using rem syn fai xp by (simp add: s3)
qed

text \<open>
  The scenario of the specification: three answers are queued, the remote API accepts
  the first and the third and rejects the second.
\<close>

theorem drain_partitions_queue_witness:
  "\<exists>result s'.
     syncPendingAnswers (Some True)
       (\<lambda>k. if k = 1 then Inl (ApiError ''rejected'')
            else Inr \<lparr>is_correct = True, xp_earned = Some 10\<rparr>)
       5000
       ((initial_state :: nat state)
          \<lparr>pending_answers := Some
             [\<lparr>pa_id = ''pending_1000'', pa_question_id = ''q1'', pa_user_answer = ''4'',
               pa_response_time_ms = 900, pa_answered_at = 1000, pa_topic_slug = ''arithmetic''\<rparr>,
              \<lparr>pa_id = ''pending_2000'', pa_question_id = ''q2'', pa_user_answer = ''5'',
               pa_response_time_ms = 800, pa_answered_at = 2000, pa_topic_slug = ''arithmetic''\<rparr>,
              \<lparr>pa_id = ''pending_3000'', pa_question_id = ''q3'', pa_user_answer = ''6'',
               pa_response_time_ms = 700, pa_answered_at = 3000, pa_topic_slug = ''arithmetic''\<rparr>]\<rparr>)
       = (Inr result, s') \<and>
     api_log s' = [ValidateAnswer ''q1'' ''4'' 900, ValidateAnswer ''q2'' ''5'' 800,
                   ValidateAnswer ''q3'' ''6'' 700] \<and>
     pending_answers s' = Some
       [\<lparr>pa_id = ''pending_2000'', pa_question_id = ''q2'', pa_user_answer = ''5'',
         pa_response_time_ms = 800, pa_answered_at = 2000, pa_topic_slug = ''arithmetic''\<rparr>] \<and>
     synced_answers result = 2 \<and> failed_answers result = 1 \<and> new_xp result = 20 \<and>
     last_sync s' = Some 5000 \<and> \<not> syncInProgress s'"
  using drain_partitions_queue
    [of "(initial_state :: nat state)
          \<lparr>pending_answers := Some
             [\<lparr>pa_id = ''pending_1000'', pa_question_id = ''q1'', pa_user_answer = ''4'',
               pa_response_time_ms = 900, pa_answered_at = 1000, pa_topic_slug = ''arithmetic''\<rparr>,
              \<lparr>pa_id = ''pending_2000'', pa_question_id = ''q2'', pa_user_answer = ''5'',
               pa_response_time_ms = 800, pa_answered_at = 2000, pa_topic_slug = ''arithmetic''\<rparr>,
              \<lparr>pa_id = ''pending_3000'', pa_question_id = ''q3'', pa_user_answer = ''6'',
               pa_response_time_ms = 700, pa_answered_at = 3000, pa_topic_slug = ''arithmetic''\<rparr>]\<rparr>"
        "\<lambda>k. if k = 1 then Inl (ApiError ''rejected'')
            else Inr \<lparr>is_correct = True, xp_earned = Some 10\<rparr>"
        5000]
  by (simp add: initial_state_def pending_list_def submission_def reward_def upt_rec
        numeral_2_eq_2)

text \<open>
  Once \<open>syncInProgress\<close> is set, \<open>syncPendingAnswers\<close> returns at once: the result
  has zero counts and the one message \<open>Sync already in progress\<close>, and the state is the
  state before the call, so that nothing was submitted (\<open>api_log\<close>) and neither the
  stored queue nor the last-sync time changed.
\<close>

lemma guard_turns_call_away:
  assumes "syncInProgress s"
  shows "syncPendingAnswers isConnected respond synced_at s =
     (Inr \<lparr>synced_answers = 0, failed_answers = 0, new_xp = 0,
           errors = [''Sync already in progress'']\<rparr>, s)"
  using assms by (simp add: syncPendingAnswers_def)

subsection \<open>Overlapping drains\<close>

text \<open>A call that nothing interrupts is the three parts run one after the other.\<close>

lemma syncPendingAnswers_in_parts:
  "syncPendingAnswers isConnected respond synced_at s =
     (case sync_until_check s of
        Some result \<Rightarrow> (Inr result, s)
      | None \<Rightarrow>
          (case sync_after_check isConnected s of
             (Inr (Some result), s1) \<Rightarrow> (Inr result, s1)
           | (Inr None, s1) \<Rightarrow>
               (case getPendingAnswers s1 of
                  (Inr pending, s2) \<Rightarrow> sync_after_read respond synced_at pending s2
                | (Inl error, s2) \<Rightarrow> (Inl error, s2\<lparr>syncInProgress := False\<rparr>))
           | (Inl error, s1) \<Rightarrow> (Inl error, s1)))"
  by (simp add: syncPendingAnswers_def sync_until_check_def sync_after_check_def
        sync_after_read_def checkOnline_def await_def resolve_def try_finally_def Let_def
        split: prod.splits sum.splits option.splits)

text \<open>
  C2. The claim is that a call of \<open>syncPendingAnswers\<close> made while a drain is in
  progress returns at once with \<open>Sync already in progress\<close> and submits nothing. The
  code sets \<open>syncInProgress\<close> only after the network check has answered. Here one
  answer is queued and two calls are made, the second while the first is suspended in
  its network check: the second call passes the guard as the first did, both calls read
  the queue before either writes it, and both submit the queued answer, each reporting
  one synced answer. A call made after the first has passed its network check is
  turned away.
\<close>

theorem overlapping_drains_both_submit:
  "(let queued = \<lparr>pa_id = ''pending_1000'', pa_question_id = ''q1'', pa_user_answer = ''4'',
                  pa_response_time_ms = 900, pa_answered_at = 1000,
                  pa_topic_slug = ''arithmetic''\<rparr>;
        s0 = (initial_state :: nat state)\<lparr>pending_answers := Some [queued]\<rparr>;
        accept = (\<lambda>k. Inr \<lparr>is_correct = True, xp_earned = Some 10\<rparr>);
        first_call = sync_until_check s0;
        second_call = sync_until_check s0;
        first_checked = sync_after_check (Some True) s0;
        second_checked = sync_after_check (Some True) (snd first_checked);
        first_read = getPendingAnswers (snd second_checked);
        second_read = getPendingAnswers (snd first_read);
        first_done = sync_after_read accept 5000 [queued] (snd second_read);
        second_done = sync_after_read accept 5001 [queued] (snd first_done)
    in first_call = None \<and> second_call = None \<and>
       fst first_checked = Inr None \<and> fst second_checked = Inr None \<and>
       sync_until_check (snd first_checked) =
         Some \<lparr>synced_answers = 0, failed_answers = 0, new_xp = 0,
               errors = [''Sync already in progress'']\<rparr> \<and>
       fst first_read = Inr [queued] \<and> fst second_read = Inr [queued] \<and>
       fst first_done =
         Inr \<lparr>synced_answers = 1, failed_answers = 0, new_xp = 10, errors = []\<rparr> \<and>
       fst second_done =
         Inr \<lparr>synced_answers = 1, failed_answers = 0, new_xp = 10, errors = []\<rparr> \<and>
       api_log (snd second_done) =
         [ValidateAnswer ''q1'' ''4'' 900, ValidateAnswer ''q1'' ''4'' 900] \<and>
       pending_answers (snd second_done) = Some [])"
  by (simp add: Let_def initial_state_def sync_until_check_def sync_after_check_def
        sync_after_read_def checkOnline_def getPendingAnswers_def validateAnswer_def
        await_def resolve_def try_catch_def try_finally_def getItem_def setItem_def
        storage_call_def)

subsection \<open>Taking a cached question\<close>

lemma getCachedQuestions_sound:
  assumes "getCachedQuestions now topic s = (r, s')"
  shows "\<exists>qs. r = Inr qs \<and>
           (qs = [] \<or> qs = filter (topic_match topic) (filter (\<lambda>q. now < cq_expires_at q) (cached_list s)))"
    and "s' = s\<lparr>storage_faults := tl (storage_faults s)\<rparr>"
proof -
  show "\<exists>qs. r = Inr qs \<and>
           (qs = [] \<or> qs = filter (topic_match topic) (filter (\<lambda>q. now < cq_expires_at q) (cached_list s)))"
    using assms
    by (auto simp: getCachedQuestions_def task_defs cached_list_def Let_def topic_match_def
             split: option.splits list.splits bool.splits if_splits)
  show "s' = s\<lparr>storage_faults := tl (storage_faults s)\<rparr>"
    using assms
    by (auto simp: getCachedQuestions_def task_defs cached_list_def Let_def topic_match_def
             split: option.splits list.splits bool.splits if_splits)
qed

lemma take_first_Some:
  assumes "take_first now1 now2 topic s = (Inr (Some first), s')"
  shows "\<exists>rest kept.
     filter (topic_match (Some topic)) (filter (\<lambda>q. now1 < cq_expires_at q) (cached_list s)) =
       first # rest \<and>
     (kept = [] \<or> kept = filter (\<lambda>q. now2 < cq_expires_at q) (cached_list s)) \<and>
     offline_questions s' = Some (filter (\<lambda>q. cq_id q \<noteq> cq_id first) kept)"
proof -
  obtain r1 s1 where g1: "getCachedQuestions now1 (Some topic) s = (r1, s1)"
    by (metis surj_pair)
  from getCachedQuestions_sound [OF g1] obtain qs where
    r1: "r1 = Inr qs" and
    qs: "qs = [] \<or> qs = filter (topic_match (Some topic))
                         (filter (\<lambda>q. now1 < cq_expires_at q) (cached_list s))" and
    s1: "s1 = s\<lparr>storage_faults := tl (storage_faults s)\<rparr>"
    by blast
  obtain r2 s2 where g2: "getCachedQuestions now2 None s1 = (r2, s2)"
    by (metis surj_pair)
  from getCachedQuestions_sound [OF g2] obtain kept where
    r2: "r2 = Inr kept" and
    kept: "kept = [] \<or> kept = filter (topic_match None)
                         (filter (\<lambda>q. now2 < cq_expires_at q) (cached_list s1))"
    by blast
  have cl: "cached_list s1 = cached_list s"
    using s1 by (simp add: cached_list_def)
  have tm: "filter (topic_match None) xs = xs" for xs :: "'a CachedQuestion list"
    by (simp add: topic_match_def)
  from assms g1 r1 obtain rest where qs_eq: "qs = first # rest"
    by (auto simp: take_first_def await_def resolve_def g2 r2 setItem_def storage_call_def
             split: list.splits bool.splits if_splits)
  have wr: "offline_questions s' = Some (filter (\<lambda>q. cq_id q \<noteq> cq_id first) kept)"
    using assms g1 r1 qs_eq g2 r2
    by (auto simp: take_first_def await_def resolve_def setItem_def storage_call_def Let_def
             split: list.splits bool.splits if_splits)
  from qs qs_eq have
    "filter (topic_match (Some topic)) (filter (\<lambda>q. now1 < cq_expires_at q) (cached_list s)) =
       first # rest"
    by auto
  with wr kept show ?thesis
    unfolding cl tm by blast
qed

lemma take_first_Some_valid:
  assumes "take_first now1 now2 topic s = (Inr (Some first), s')"
  shows "first \<in> set (cached_list s) \<and> now1 < cq_expires_at first"
proof -
  from take_first_Some [OF assms] obtain rest where
    "filter (topic_match (Some topic)) (filter (\<lambda>q. now1 < cq_expires_at q) (cached_list s)) =
       first # rest"
    by blast
  then have "first \<in> set (filter (topic_match (Some topic))
                (filter (\<lambda>q. now1 < cq_expires_at q) (cached_list s)))"
    by simp
  then show ?thesis by simp
qed

lemma take_first_other:
  assumes "take_first now1 now2 topic s = (r, s')" and "\<forall>first. r \<noteq> Inr (Some first)"
  shows "offline_questions s' = offline_questions s"
proof -
  obtain r1 s1 where g1: "getCachedQuestions now1 (Some topic) s = (r1, s1)"
    by (metis surj_pair)
  from getCachedQuestions_sound [OF g1] obtain qs where
    r1: "r1 = Inr qs" and s1: "s1 = s\<lparr>storage_faults := tl (storage_faults s)\<rparr>"
    by blast
  obtain r2 s2 where g2: "getCachedQuestions now2 None s1 = (r2, s2)"
    by (metis surj_pair)
  from getCachedQuestions_sound [OF g2] obtain kept where
    r2: "r2 = Inr kept" and s2: "s2 = s1\<lparr>storage_faults := tl (storage_faults s1)\<rparr>"
    by blast
  show ?thesis
    using assms g1 r1 g2 r2 s1 s2
    by (auto simp: take_first_def await_def resolve_def setItem_def storage_call_def Let_def
             split: list.splits bool.splits if_splits)
qed

lemma getOfflineQuestion_Some:
  assumes "getOfflineQuestion now1 now2 topic s = (Inr (Some payload), s')"
  shows "\<exists>first. take_first now1 now2 topic s = (Inr (Some first), s') \<and> cq_question first = payload"
  using assms
  by (auto simp: getOfflineQuestion_def await_def resolve_def split: prod.splits sum.splits)

lemma getCacheCount_sound:
  "\<exists>n. fst (getCacheCount now topic s) = Inr n \<and>
     n \<le> length (filter (\<lambda>q. now < cq_expires_at q \<and> topic_match topic q) (cached_list s))"
proof (cases rule: getCachedQuestions_cases [of now topic s])
  case 1
  then show ?thesis by (simp add: getCacheCount_def await_def resolve_def)
next
  case 2
  have "filter (topic_match topic) (filter (\<lambda>q. now < cq_expires_at q) (cached_list s)) =
        filter (\<lambda>q. now < cq_expires_at q \<and> topic_match topic q) (cached_list s)"
    by (simp add: conj_commute)
  with 2 show ?thesis by (simp add: getCacheCount_def await_def resolve_def)
qed

lemma all_expired:
  assumes "list_all (\<lambda>q. cq_expires_at q \<le> now) (cached_list s)"
  shows "filter (topic_match topic) (filter (\<lambda>q. now < cq_expires_at q) (cached_list s)) = []"
proof -
  from assms have "filter (\<lambda>q. now < cq_expires_at q) (cached_list s) = []"
    by (auto simp: list_all_iff filter_empty_conv)
  then show ?thesis by simp
qed

lemma getOfflineQuestion_all_expired:
  assumes "list_all (\<lambda>q. cq_expires_at q \<le> now) (cached_list s)"
  shows "fst (getOfflineQuestion now now2 topic s) = Inr None"
    and "fst (getCacheCount now topic' s) = Inr 0"
proof -
  show "fst (getOfflineQuestion now now2 topic s) = Inr None"
    using all_expired [OF assms, of "Some topic"]
    by (cases rule: getCachedQuestions_cases [of now "Some topic" s])
       (simp_all add: getOfflineQuestion_def take_first_def await_def resolve_def)
  show "fst (getCacheCount now topic' s) = Inr 0"
    using all_expired [OF assms, of topic']
    by (cases rule: getCachedQuestions_cases [of now topic' s])
       (simp_all add: getCacheCount_def await_def resolve_def)
qed

text \<open>
  C4. Whatever the cache holds and whatever the time \<open>now\<close> of the call:
  a question returned by \<open>getOfflineQuestion\<close> is the payload of a cached question that
  expires after \<open>now\<close>; \<open>getCacheCount\<close> counts at most the cached questions of the
  topic that expire after \<open>now\<close>, and exactly those when the store works. When every
  cached question was cached at \<open>t0\<close> with the time to live of 24 hours, then from
  \<open>t0\<close> plus 25 hours on \<open>getOfflineQuestion\<close> returns null and \<open>getCacheCount\<close>
  returns zero.
\<close>

theorem take_and_count_skip_expired:
  "(getOfflineQuestion now now2 topic s = (Inr (Some payload), s') \<longrightarrow>
      (\<exists>q \<in> set (cached_list s). cq_question q = payload \<and> now < cq_expires_at q)) \<and>
   (\<exists>n. fst (getCacheCount now topic' s) = Inr n \<and>
      n \<le> length (filter (\<lambda>q. now < cq_expires_at q \<and> topic_match topic' q) (cached_list s))) \<and>
   (storage_faults s = [] \<longrightarrow>
      fst (getCacheCount now topic' s) =
        Inr (length (filter (\<lambda>q. now < cq_expires_at q \<and> topic_match topic' q) (cached_list s)))) \<and>
   (list_all (\<lambda>q. cq_cached_at q = t0 \<and> cq_expires_at q = cq_cached_at q + TTL) (cached_list s) \<and>
    t0 + 25 * 60 * 60 * 1000 \<le> now \<longrightarrow>
      fst (getOfflineQuestion now now2 topic s) = Inr None \<and>
      fst (getCacheCount now topic' s) = Inr 0)"
proof (intro conjI impI)
  assume "getOfflineQuestion now now2 topic s = (Inr (Some payload), s')"
  from getOfflineQuestion_Some [OF this] obtain first where
    "take_first now now2 topic s = (Inr (Some first), s')" and "cq_question first = payload"
    by blast
  with take_first_Some_valid [of now now2 topic s first s']
  show "\<exists>q \<in> set (cached_list s). cq_question q = payload \<and> now < cq_expires_at q"
    by blast
next
  show "\<exists>n. fst (getCacheCount now topic' s) = Inr n \<and>
      n \<le> length (filter (\<lambda>q. now < cq_expires_at q \<and> topic_match topic' q) (cached_list s))"
    by (rule getCacheCount_sound)
next
  assume "storage_faults s = []"
  then show "fst (getCacheCount now topic' s) =
        Inr (length (filter (\<lambda>q. now < cq_expires_at q \<and> topic_match topic' q) (cached_list s)))"
    by (simp add: getCacheCount_def await_def resolve_def getCachedQuestions_ok conj_commute)
next
  assume a: "list_all (\<lambda>q. cq_cached_at q = t0 \<and> cq_expires_at q = cq_cached_at q + TTL) (cached_list s) \<and>
    t0 + 25 * 60 * 60 * 1000 \<le> now"
  then have e: "list_all (\<lambda>q. cq_expires_at q \<le> now) (cached_list s)"
    by (auto simp: list_all_iff TTL_def)
  from getOfflineQuestion_all_expired(1) [OF e]
  show "fst (getOfflineQuestion now now2 topic s) = Inr None" .
next
  assume a: "list_all (\<lambda>q. cq_cached_at q = t0 \<and> cq_expires_at q = cq_cached_at q + TTL) (cached_list s) \<and>
    t0 + 25 * 60 * 60 * 1000 \<le> now"
  then have e: "list_all (\<lambda>q. cq_expires_at q \<le> now) (cached_list s)"
    by (auto simp: list_all_iff TTL_def)
  from getOfflineQuestion_all_expired(2) [OF e]
  show "fst (getCacheCount now topic' s) = Inr 0" .
qed

lemmas eval_defs = cacheQuestions_def checkOnline_def resolve_def await_def try_catch_def
  try_finally_def storage_call_def getItem_def setItem_def removeItem_def cache_loop.simps
  generateQuestion_def getCachedQuestions_def take_first_def getOfflineQuestion_def
  getCacheCount_def clearExpiredCache_def TTL_def show_int_def digits.simps digit_char_def
  initial_state_def cached_list_def pending_list_def topic_match_def Let_def

text \<open>
  The scenario of the specification: three questions for \<open>arithmetic\<close> are cached at
  time \<open>1000\<close>; one second later the count is three, 25 hours later nothing is returned
  and the count is zero.
\<close>

theorem take_and_count_skip_expired_witness:
  "(let s = snd (cacheQuestions (Some True) 1000 (\<lambda>i. Inr (7 + i)) (\<lambda>i. 1000) 1000
                  (\<lambda>k. 1000) ''arithmetic'' 3 None (initial_state :: nat state));
        later = 1000 + 25 * 60 * 60 * 1000
    in map cq_cached_at (cached_list s) = [1000, 1000, 1000] \<and>
       map cq_expires_at (cached_list s) = [1000 + TTL, 1000 + TTL, 1000 + TTL] \<and>
       fst (getCacheCount 2000 (Some ''arithmetic'') s) = Inr 3 \<and>
       fst (getOfflineQuestion 2000 2000 ''arithmetic'' s) = Inr (Some 7) \<and>
       (\<exists>q \<in> set (cached_list s). cq_question q = 7 \<and> 2000 < cq_expires_at q) \<and>
       fst (getOfflineQuestion later later ''arithmetic'' s) = Inr None \<and>
       fst (getCacheCount later (Some ''arithmetic'') s) = Inr 0)"
proof -
  let ?s = "snd (cacheQuestions (Some True) 1000 (\<lambda>i. Inr (7 + i)) (\<lambda>i. 1000) 1000
                  (\<lambda>k. 1000) ''arithmetic'' 3 None (initial_state :: nat state))"
  let ?later = "1000 + 25 * 60 * 60 * 1000 :: int"
  have cl: "cached_list ?s =
    [\<lparr>cq_id = ''cached_1000_0'', cq_topic_slug = ''arithmetic'', cq_difficulty_tier = 1,
      cq_question = 7, cq_cached_at = 1000, cq_expires_at = 1000 + TTL\<rparr>,
     \<lparr>cq_id = ''cached_1000_1'', cq_topic_slug = ''arithmetic'', cq_difficulty_tier = 1,
      cq_question = 8, cq_cached_at = 1000, cq_expires_at = 1000 + TTL\<rparr>,
     \<lparr>cq_id = ''cached_1000_2'', cq_topic_slug = ''arithmetic'', cq_difficulty_tier = 1,
      cq_question = 9, cq_cached_at = 1000, cq_expires_at = 1000 + TTL\<rparr>]"
    by (simp add: eval_defs)
  have nf: "storage_faults ?s = []"
    by (simp add: eval_defs)
  have pre: "list_all (\<lambda>q. cq_cached_at q = 1000 \<and> cq_expires_at q = cq_cached_at q + TTL)
               (cached_list ?s) \<and> 1000 + 25 * 60 * 60 * 1000 \<le> ?later"
    unfolding cl by simp
  from take_and_count_skip_expired
         [of ?later ?later "''arithmetic''" ?s 0 initial_state "Some ''arithmetic''" 1000] pre
  have gone: "fst (getOfflineQuestion ?later ?later ''arithmetic'' ?s) = Inr None \<and>
              fst (getCacheCount ?later (Some ''arithmetic'') ?s) = Inr 0"
    by blast
  let ?s' = "snd (getOfflineQuestion 2000 2000 ''arithmetic'' ?s)"
  note early = take_and_count_skip_expired
         [of 2000 2000 "''arithmetic''" ?s 7 ?s' "Some ''arithmetic''" 1000]
  from early nf
  have "fst (getCacheCount 2000 (Some ''arithmetic'') ?s) =
        Inr (length (filter (\<lambda>q. 2000 < cq_expires_at q \<and> topic_match (Some ''arithmetic'') q)
               (cached_list ?s)))"
    by blast
  then have cnt: "fst (getCacheCount 2000 (Some ''arithmetic'') ?s) = Inr 3"
    unfolding cl by (simp add: topic_match_def TTL_def)
  have run: "getOfflineQuestion 2000 2000 ''arithmetic'' ?s = (Inr (Some 7), ?s')"
    by (simp add: eval_defs)
  from early run
  have valid: "\<exists>q \<in> set (cached_list ?s). cq_question q = 7 \<and> 2000 < cq_expires_at q"
    by blast
  have took: "fst (getOfflineQuestion 2000 2000 ''arithmetic'' ?s) = Inr (Some 7)"
    using arg_cong [OF run, of fst] by (simp only: fst_conv)
  have c1: "map cq_cached_at (cached_list ?s) = [1000, 1000, 1000]"
    unfolding cl by simp
  have c2: "map cq_expires_at (cached_list ?s) = [1000 + TTL, 1000 + TTL, 1000 + TTL]"
    unfolding cl by simp
  from gone have g1: "fst (getOfflineQuestion ?later ?later ''arithmetic'' ?s) = Inr None"
    and g2: "fst (getCacheCount ?later (Some ''arithmetic'') ?s) = Inr 0"
    by blast+
  show ?thesis
    unfolding Let_def by (intro conjI c1 c2 cnt took valid g1 g2)
qed

text \<open>
  C9. When \<open>getOfflineQuestion\<close> returns a question, it is the payload of \<open>first\<close>, the
  earliest cached question of the topic that has not expired, and the cache written back
  holds no question with the identifier of \<open>first\<close>: every other cached question that
  carries the same identifier is dropped with it, never having been returned. Nothing is
  added, and with a working store the new cache is the old one without the expired
  questions and without the questions carrying that identifier.
\<close>

theorem take_removes_every_copy:
  assumes "getOfflineQuestion now1 now2 topic s = (Inr (Some payload), s')"
  shows "\<exists>first rest.
     filter (topic_match (Some topic)) (filter (\<lambda>q. now1 < cq_expires_at q) (cached_list s)) =
       first # rest \<and>
     cq_question first = payload \<and>
     (\<forall>q \<in> set (cached_list s). cq_id q = cq_id first \<longrightarrow> q \<notin> set (cached_list s')) \<and>
     set (cached_list s') \<subseteq> set (cached_list s) \<and>
     (storage_faults s = [] \<longrightarrow>
        cached_list s' =
          filter (\<lambda>q. cq_id q \<noteq> cq_id first)
            (filter (\<lambda>q. now2 < cq_expires_at q) (cached_list s)))"
proof -
  from getOfflineQuestion_Some [OF assms] obtain first where
    tf: "take_first now1 now2 topic s = (Inr (Some first), s')" and
    pl: "cq_question first = payload"
    by blast
  from take_first_Some [OF tf] obtain rest kept where
    hd: "filter (topic_match (Some topic)) (filter (\<lambda>q. now1 < cq_expires_at q) (cached_list s)) =
       first # rest" and
    kept: "kept = [] \<or> kept = filter (\<lambda>q. now2 < cq_expires_at q) (cached_list s)" and
    wr: "offline_questions s' = Some (filter (\<lambda>q. cq_id q \<noteq> cq_id first) kept)"
    by blast
  have cl: "cached_list s' = filter (\<lambda>q. cq_id q \<noteq> cq_id first) kept"
    using wr by (simp add: cached_list_def)
  have gone: "\<forall>q \<in> set (cached_list s). cq_id q = cq_id first \<longrightarrow> q \<notin> set (cached_list s')"
    unfolding cl by simp
  have sub: "set (cached_list s') \<subseteq> set (cached_list s)"
    unfolding cl using kept by auto
  have exact: "cached_list s' =
          filter (\<lambda>q. cq_id q \<noteq> cq_id first)
            (filter (\<lambda>q. now2 < cq_expires_at q) (cached_list s))"
    if nf: "storage_faults s = []"
  proof -
    have "take_first now1 now2 topic s =
        (Inr (Some first),
         s\<lparr>offline_questions := Some (filter (\<lambda>q. cq_id q \<noteq> cq_id first)
              (filter (\<lambda>q. now2 < cq_expires_at q) (cached_list s)))\<rparr>)"
      using nf hd
      by (simp add: take_first_def await_def resolve_def getCachedQuestions_ok setItem_def
            storage_call_def topic_match_def)
    with tf have "s' = s\<lparr>offline_questions := Some (filter (\<lambda>q. cq_id q \<noteq> cq_id first)
              (filter (\<lambda>q. now2 < cq_expires_at q) (cached_list s)))\<rparr>"
      by simp
    then show ?thesis by (simp add: cached_list_def)
  qed
  from hd pl gone sub exact show ?thesis by blast
qed

text \<open>
  Two calls of \<open>cacheQuestions\<close> that read the same millisecond give their first
  questions the same identifier; the next \<open>getOfflineQuestion\<close> returns the first of
  the two and removes both.
\<close>

theorem take_removes_every_copy_witness:
  "(let s1 = snd (cacheQuestions (Some True) 1000 (\<lambda>i. Inr 7) (\<lambda>i. 1000) 1000 (\<lambda>k. 1000)
                    ''arithmetic'' 1 None (initial_state :: nat state));
        s2 = snd (cacheQuestions (Some True) 1000 (\<lambda>i. Inr 8) (\<lambda>i. 1000) 1000 (\<lambda>k. 1000)
                    ''arithmetic'' 1 None s1)
    in map cq_id (cached_list s2) = [''cached_1000_0'', ''cached_1000_0''] \<and>
       map cq_question (cached_list s2) = [7, 8] \<and>
       fst (getOfflineQuestion 2000 2000 ''arithmetic'' s2) = Inr (Some 7) \<and>
       cached_list (snd (getOfflineQuestion 2000 2000 ''arithmetic'' s2)) = [])"
proof -
  let ?s1 = "snd (cacheQuestions (Some True) 1000 (\<lambda>i. Inr 7) (\<lambda>i. 1000) 1000 (\<lambda>k. 1000)
                    ''arithmetic'' 1 None (initial_state :: nat state))"
  let ?s2 = "snd (cacheQuestions (Some True) 1000 (\<lambda>i. Inr 8) (\<lambda>i. 1000) 1000 (\<lambda>k. 1000)
                    ''arithmetic'' 1 None ?s1)"
  let ?s3 = "snd (getOfflineQuestion 2000 2000 ''arithmetic'' ?s2)"
  have cl: "cached_list ?s2 =
    [\<lparr>cq_id = ''cached_1000_0'', cq_topic_slug = ''arithmetic'', cq_difficulty_tier = 1,
      cq_question = 7, cq_cached_at = 1000, cq_expires_at = 1000 + TTL\<rparr>,
     \<lparr>cq_id = ''cached_1000_0'', cq_topic_slug = ''arithmetic'', cq_difficulty_tier = 1,
      cq_question = 8, cq_cached_at = 1000, cq_expires_at = 1000 + TTL\<rparr>]"
    by (simp add: eval_defs)
  have nf: "storage_faults ?s2 = []"
    by (simp add: eval_defs)
  have run: "getOfflineQuestion 2000 2000 ''arithmetic'' ?s2 = (Inr (Some 7), ?s3)"
    by (simp add: eval_defs)
  from take_removes_every_copy [OF run] obtain first rest where
    hd: "filter (topic_match (Some ''arithmetic''))
           (filter (\<lambda>q. 2000 < cq_expires_at q) (cached_list ?s2)) = first # rest" and
    ex: "storage_faults ?s2 = [] \<longrightarrow>
         cached_list ?s3 =
           filter (\<lambda>q. cq_id q \<noteq> cq_id first)
             (filter (\<lambda>q. 2000 < cq_expires_at q) (cached_list ?s2))"
    by blast
  from hd have "cq_id first = ''cached_1000_0''"
    unfolding cl by (auto simp: topic_match_def TTL_def)
  with ex nf have c4: "cached_list ?s3 = []"
    unfolding cl by (simp add: TTL_def)
  have c1: "map cq_id (cached_list ?s2) = [''cached_1000_0'', ''cached_1000_0'']"
    unfolding cl by simp
  have c2: "map cq_question (cached_list ?s2) = [7, 8]"
    unfolding cl by simp
  have c3: "fst (getOfflineQuestion 2000 2000 ''arithmetic'' ?s2) = Inr (Some 7)"
    using arg_cong [OF run, of fst] by (simp only: fst_conv)
  show ?thesis
    unfolding Let_def by (intro conjI c1 c2 c3 c4)
qed

subsection \<open>Sweeping and the progress snapshot\<close>

text \<open>
  C8. With a working store, a call of \<open>clearExpiredCache\<close> at the time at which the
  previous call ended removes nothing: it returns \<open>0\<close> and leaves the whole state, the
  stored cache included, as the first call left it.
\<close>

theorem sweep_twice_removes_nothing:
  assumes "storage_faults s = []"
  shows "\<exists>removed s1.
     clearExpiredCache read_at now s = (Inr removed, s1) \<and>
     clearExpiredCache now now s1 = (Inr 0, s1)"
  using assms
  by (simp add: clearExpiredCache_def getCachedQuestions_ok await_def resolve_def setItem_def
        storage_call_def Let_def cached_list_def topic_match_def)

text \<open>A cache of two questions, one of them expired at the time of the sweep.\<close>

theorem sweep_twice_removes_nothing_witness:
  "(let s = (initial_state :: nat state)
              \<lparr>offline_questions := Some
                 [\<lparr>cq_id = ''cached_1000_0'', cq_topic_slug = ''arithmetic'',
                   cq_difficulty_tier = 1, cq_question = 7, cq_cached_at = 1000,
                   cq_expires_at = 5000\<rparr>,
                  \<lparr>cq_id = ''cached_3000_0'', cq_topic_slug = ''algebra'',
                   cq_difficulty_tier = 2, cq_question = 8, cq_cached_at = 3000,
                   cq_expires_at = 7000\<rparr>]\<rparr>;
        s1 = snd (clearExpiredCache 6000 6000 s)
    in storage_faults s = [] \<and>
       map cq_id (cached_list s1) = [''cached_3000_0''] \<and>
       clearExpiredCache 6000 6000 s1 = (Inr 0, s1))"
proof -
  let ?s = "(initial_state :: nat state)
              \<lparr>offline_questions := Some
                 [\<lparr>cq_id = ''cached_1000_0'', cq_topic_slug = ''arithmetic'',
                   cq_difficulty_tier = 1, cq_question = 7, cq_cached_at = 1000,
                   cq_expires_at = 5000\<rparr>,
                  \<lparr>cq_id = ''cached_3000_0'', cq_topic_slug = ''algebra'',
                   cq_difficulty_tier = 2, cq_question = 8, cq_cached_at = 3000,
                   cq_expires_at = 7000\<rparr>]\<rparr>"
  have nf: "storage_faults ?s = []"
    by (simp add: initial_state_def)
  from sweep_twice_removes_nothing [OF nf, of 6000 6000] obtain removed s1 where
    a: "clearExpiredCache 6000 6000 ?s = (Inr removed, s1)" and
    b: "clearExpiredCache 6000 6000 s1 = (Inr 0, s1)"
    by blast
  from a have s1: "snd (clearExpiredCache 6000 6000 ?s) = s1" by simp
  have "map cq_id (cached_list (snd (clearExpiredCache 6000 6000 ?s))) = [''cached_3000_0'']"
    by (simp add: eval_defs)
  with nf b show ?thesis
    unfolding Let_def s1 by simp
qed

text \<open>
  C10. When \<open>getProgress\<close> returns null, \<open>updateLocalMastery\<close> returns without
  writing: every key of the store holds what it held before, and no snapshot exists
  afterwards if none was stored.
\<close>

theorem mastery_update_without_snapshot:
  assumes "fst (getProgress s) = Inr None"
  shows "\<exists>s'. updateLocalMastery now topic_slug mastery s = (Inr (), s') \<and>
     offline_questions s' = offline_questions s \<and> pending_answers s' = pending_answers s \<and>
     user_progress s' = user_progress s \<and> last_sync s' = last_sync s \<and>
     offline_stats s' = offline_stats s"
  using assms
  by (auto simp: updateLocalMastery_def getProgress_def task_defs
           split: list.splits bool.splits prod.splits sum.splits option.splits if_splits)

theorem mastery_update_without_snapshot_witness:
  "fst (getProgress (initial_state :: nat state)) = Inr None \<and>
   updateLocalMastery 1000 ''arithmetic'' (1 / 2) (initial_state :: nat state) =
     (Inr (), initial_state)"
proof -
  have none: "fst (getProgress (initial_state :: nat state)) = Inr None"
    by (simp add: getProgress_def task_defs initial_state_def)
  from mastery_update_without_snapshot [OF none, of 1000 "''arithmetic''" "1 / 2"]
  obtain s' where "updateLocalMastery 1000 ''arithmetic'' (1 / 2) (initial_state :: nat state) =
     (Inr (), s')"
    by blast
  moreover have "snd (updateLocalMastery 1000 ''arithmetic'' (1 / 2) (initial_state :: nat state)) =
     initial_state"
    by (simp add: updateLocalMastery_def getProgress_def task_defs initial_state_def)
  ultimately show ?thesis using none by simp
qed

subsection \<open>Filling the cache\<close>

lemma cache_loop_run:
  "cache_loop fetch clock topic_slug difficulty_tier now expires count i cached s =
     (Inr (cached @ new_entries fetch clock topic_slug difficulty_tier now expires [i..<count]),
      s\<lparr>api_log := api_log s @
           replicate (count - i) (GenerateQuestion topic_slug difficulty_tier True)\<rparr>)"
proof (induction fetch clock topic_slug difficulty_tier now expires count i cached s
       rule: cache_loop.induct)
  case (1 fetch clock topic_slug difficulty_tier now expires count i cached s)
  show ?case
  proof (cases "i < count")
    case False
    then show ?thesis
      by (subst cache_loop.simps) (simp add: new_entries_def)
  next
    case True
    then have u: "[i..<count] = i # [Suc i..<count]"
      by (rule upt_conv_Cons)
    from True have c: "count - i = Suc (count - Suc i)"
      by simp
    let ?s' = "s\<lparr>api_log := api_log s @ [GenerateQuestion topic_slug difficulty_tier True]\<rparr>"
    have g: "generateQuestion (fetch i) topic_slug difficulty_tier True s = (fetch i, ?s')"
      by (simp add: generateQuestion_def)
    show ?thesis
    proof (cases "fetch i")
      case (Inl error)
      from "1.IH"(1) [OF True g [symmetric] Inl] True g Inl show ?thesis
        by (subst cache_loop.simps) (simp add: u c new_entries_def)
    next
      case (Inr question)
      from "1.IH"(2) [OF True g [symmetric] Inr] True g Inr show ?thesis
        by (subst cache_loop.simps) (simp add: u c new_entries_def)
    qed
  qed
qed

lemma new_entries_fields:
  assumes "q \<in> set (new_entries fetch clock topic_slug difficulty_tier now expires js)"
  shows "cq_topic_slug q = topic_slug \<and> cq_cached_at q = now \<and> cq_expires_at q = expires \<and>
         (\<exists>j \<in> set js. cq_id q = ''cached_'' @ show_int (clock j) @ ''_'' @ digits j \<and>
            fetch j = Inr (cq_question q))"
  using assms by (auto simp: new_entries_def split: sum.splits)

lemma new_entries_questions:
  "map cq_question (new_entries fetch clock topic_slug difficulty_tier now expires js) =
     concat (map (\<lambda>j. case fetch j of Inl error \<Rightarrow> [] | Inr question \<Rightarrow> [question]) js)"
  by (induction js) (auto simp: new_entries_def split: sum.splits)

lemma new_entries_length:
  "length (new_entries fetch clock topic_slug difficulty_tier now expires js) =
     length (filter (\<lambda>j. \<not> isl (fetch j)) js)"
  by (induction js) (auto simp: new_entries_def split: sum.splits)

lemma filter_valid_subset: "set (filter_valid sweep k qs) \<subseteq> set qs"
  by (induction qs arbitrary: k) auto

lemma filter_valid_const: "filter_valid (\<lambda>k. t) k qs = filter (\<lambda>q. t < cq_expires_at q) qs"
  by (induction qs arbitrary: k) auto

lemma filter_valid_all:
  "(\<And>j q. q \<in> set qs \<Longrightarrow> sweep j < cq_expires_at q) \<Longrightarrow> filter_valid sweep k qs = qs"
  by (induction qs arbitrary: k) auto

lemma filter_valid_kept:
  "q \<in> set (filter_valid sweep k qs) \<Longrightarrow> \<exists>j. sweep j < cq_expires_at q"
  by (induction qs arbitrary: k) (auto split: if_splits)

lemma cacheQuestions_offline:
  assumes "isConnected \<noteq> Some True"
  shows "cacheQuestions isConnected now fetch clock read_at sweep topic_slug count
           difficulty_tier s = (Inr 0, s\<lparr>isOnline := False\<rparr>)"
  using assms
  by (cases isConnected) (auto simp: cacheQuestions_def checkOnline_def await_def resolve_def)

lemma cacheQuestions_online:
  assumes "storage_faults s = []"
  shows "cacheQuestions (Some True) now fetch clock read_at sweep topic_slug count
           difficulty_tier s =
     (Inr (length (new_entries fetch clock topic_slug difficulty_tier now (now + TTL) [0..<count])),
      s\<lparr>isOnline := True,
        api_log := api_log s @ replicate count (GenerateQuestion topic_slug difficulty_tier True),
        offline_questions := Some (filter_valid sweep 0
          (filter (\<lambda>q. read_at < cq_expires_at q) (cached_list s) @
           new_entries fetch clock topic_slug difficulty_tier now (now + TTL) [0..<count]))\<rparr>)"
  using assms
  by (simp add: cacheQuestions_def checkOnline_def await_def resolve_def cache_loop_run
        getCachedQuestions_ok topic_match_def setItem_def storage_call_def Let_def
        cached_list_def)

text \<open>
  C3. With a working store: when the device is not online, \<open>cacheQuestions\<close> returns
  \<open>0\<close> and changes nothing but the online flag. When it is online, it sends exactly
  \<open>count\<close> requests, whatever the outcome of each; the result is the number of
  successful fetches; there is one new cached question for every successful fetch, in
  fetch order, with the topic, \<open>cached_at = now\<close> and
  \<open>expires_at = cached_at + TTL\<close>; and the cache written is the questions read
  (those not expired at the time of reading) followed by the new ones, passed through
  the expiry filter. Every question written passed one of the clock readings of that
  filter, and when all those readings lie before \<open>now + TTL\<close> all new questions are
  written.
\<close>

theorem fill_caches_successful_fetches:
  assumes "storage_faults s = []"
  shows "(isConnected \<noteq> Some True \<longrightarrow>
            cacheQuestions isConnected now fetch clock read_at sweep topic_slug count
              difficulty_tier s = (Inr 0, s\<lparr>isOnline := False\<rparr>)) \<and>
         (\<exists>new s'.
            cacheQuestions (Some True) now fetch clock read_at sweep topic_slug count
              difficulty_tier s = (Inr (length new), s') \<and>
            api_log s' =
              api_log s @ replicate count (GenerateQuestion topic_slug difficulty_tier True) \<and>
            length new = length (filter (\<lambda>j. \<not> isl (fetch j)) [0..<count]) \<and>
            map cq_question new =
              concat (map (\<lambda>j. case fetch j of Inl error \<Rightarrow> [] | Inr question \<Rightarrow> [question])
                        [0..<count]) \<and>
            (\<forall>q \<in> set new. cq_topic_slug q = topic_slug \<and> cq_cached_at q = now \<and>
               cq_expires_at q = cq_cached_at q + TTL) \<and>
            offline_questions s' =
              Some (filter_valid sweep 0
                      (filter (\<lambda>q. read_at < cq_expires_at q) (cached_list s) @ new)) \<and>
            (\<forall>q \<in> set (cached_list s'). \<exists>k. sweep k < cq_expires_at q) \<and>
            ((\<forall>k. sweep k < now + TTL) \<longrightarrow>
               (\<exists>old. set old \<subseteq> set (cached_list s) \<and> cached_list s' = old @ new)))"
proof (intro conjI impI)
  assume "isConnected \<noteq> Some True"
  then show "cacheQuestions isConnected now fetch clock read_at sweep topic_slug count
              difficulty_tier s = (Inr 0, s\<lparr>isOnline := False\<rparr>)"
    by (rule cacheQuestions_offline)
next
  let ?new = "new_entries fetch clock topic_slug difficulty_tier now (now + TTL) [0..<count]"
  let ?read = "filter (\<lambda>q. read_at < cq_expires_at q) (cached_list s)"
  let ?s' = "s\<lparr>isOnline := True,
        api_log := api_log s @ replicate count (GenerateQuestion topic_slug difficulty_tier True),
        offline_questions := Some (filter_valid sweep 0 (?read @ ?new))\<rparr>"
  have run: "cacheQuestions (Some True) now fetch clock read_at sweep topic_slug count
              difficulty_tier s = (Inr (length ?new), ?s')"
    by (rule cacheQuestions_online [OF assms])
  have log: "api_log ?s' =
      api_log s @ replicate count (GenerateQuestion topic_slug difficulty_tier True)"
    by simp
  have len: "length ?new = length (filter (\<lambda>j. \<not> isl (fetch j)) [0..<count])"
    by (rule new_entries_length)
  have qs: "map cq_question ?new =
      concat (map (\<lambda>j. case fetch j of Inl error \<Rightarrow> [] | Inr question \<Rightarrow> [question])
                [0..<count])"
    by (rule new_entries_questions)
  have fields: "\<forall>q \<in> set ?new. cq_topic_slug q = topic_slug \<and> cq_cached_at q = now \<and>
               cq_expires_at q = cq_cached_at q + TTL"
    using new_entries_fields [of _ fetch clock topic_slug difficulty_tier now "now + TTL"]
    by auto
  have wr: "offline_questions ?s' = Some (filter_valid sweep 0 (?read @ ?new))"
    by simp
  have cl: "cached_list ?s' = filter_valid sweep 0 (?read @ ?new)"
    by (simp add: cached_list_def)
  have swept: "\<forall>q \<in> set (cached_list ?s'). \<exists>k. sweep k < cq_expires_at q"
    unfolding cl using filter_valid_kept by blast
  have all_new: "\<exists>old. set old \<subseteq> set (cached_list s) \<and> cached_list ?s' = old @ ?new"
    if early: "\<forall>k. sweep k < now + TTL"
  proof -
    have split: "filter_valid sweep k (xs @ ys) =
        filter_valid sweep k xs @ filter_valid sweep (k + length xs) ys"
      for k and xs ys :: "'a CachedQuestion list"
      by (induction xs arbitrary: k) auto
    have A: "filter_valid sweep (0 + length ?read) ?new = ?new"
    proof (rule filter_valid_all)
      fix j q
      assume "q \<in> set ?new"
      with fields have "cq_expires_at q = now + TTL" by simp
      with early show "sweep j < cq_expires_at q" by simp
    qed
    have "cached_list ?s' =
        filter_valid sweep 0 ?read @ filter_valid sweep (0 + length ?read) ?new"
      by (rule trans [OF cl split])
    then have "cached_list ?s' = filter_valid sweep 0 ?read @ ?new"
      unfolding A .
    moreover have "set (filter_valid sweep 0 ?read) \<subseteq> set (cached_list s)"
      using filter_valid_subset [of sweep 0 ?read] by auto
    ultimately show ?thesis by blast
  qed
  show "\<exists>new s'.
            cacheQuestions (Some True) now fetch clock read_at sweep topic_slug count
              difficulty_tier s = (Inr (length new), s') \<and>
            api_log s' =
              api_log s @ replicate count (GenerateQuestion topic_slug difficulty_tier True) \<and>
            length new = length (filter (\<lambda>j. \<not> isl (fetch j)) [0..<count]) \<and>
            map cq_question new =
              concat (map (\<lambda>j. case fetch j of Inl error \<Rightarrow> [] | Inr question \<Rightarrow> [question])
                        [0..<count]) \<and>
            (\<forall>q \<in> set new. cq_topic_slug q = topic_slug \<and> cq_cached_at q = now \<and>
               cq_expires_at q = cq_cached_at q + TTL) \<and>
            offline_questions s' =
              Some (filter_valid sweep 0
                      (filter (\<lambda>q. read_at < cq_expires_at q) (cached_list s) @ new)) \<and>
            (\<forall>q \<in> set (cached_list s'). \<exists>k. sweep k < cq_expires_at q) \<and>
            ((\<forall>k. sweep k < now + TTL) \<longrightarrow>
               (\<exists>old. set old \<subseteq> set (cached_list s) \<and> cached_list s' = old @ new))"
  proof (rule exI [of _ ?new], rule exI [of _ ?s'], intro conjI)
    show "(\<forall>k. sweep k < now + TTL) \<longrightarrow>
       (\<exists>old. set old \<subseteq> set (cached_list s) \<and> cached_list ?s' = old @ ?new)"
      using all_new by blast
  qed (rule run log len qs fields wr swept)+
qed

text \<open>
  A batch of three fetches of which the second fails, over a cache that holds one
  expired and one valid question; and the same call while offline.
\<close>

theorem fill_caches_successful_fetches_witness:
  "(let s = (initial_state :: nat state)
              \<lparr>offline_questions := Some
                 [\<lparr>cq_id = ''cached_100_0'', cq_topic_slug = ''algebra'',
                   cq_difficulty_tier = 1, cq_question = 4, cq_cached_at = 100,
                   cq_expires_at = 900\<rparr>,
                  \<lparr>cq_id = ''cached_500_0'', cq_topic_slug = ''algebra'',
                   cq_difficulty_tier = 1, cq_question = 5, cq_cached_at = 500,
                   cq_expires_at = 500 + TTL\<rparr>]\<rparr>;
        fetch = (\<lambda>i. if i = 1 then Inl (ApiError ''timeout'') else Inr (7 + i));
        r = cacheQuestions (Some True) 1000 fetch (\<lambda>i. 1001 + int i) 1005 (\<lambda>k. 1006)
              ''arithmetic'' 3 (Some 2) s
    in storage_faults s = [] \<and>
       fst r = Inr 2 \<and>
       api_log (snd r) =
         [GenerateQuestion ''arithmetic'' (Some 2) True,
          GenerateQuestion ''arithmetic'' (Some 2) True,
          GenerateQuestion ''arithmetic'' (Some 2) True] \<and>
       map cq_question (cached_list (snd r)) = [5, 7, 9] \<and>
       map cq_id (cached_list (snd r)) = [''cached_500_0'', ''cached_1001_0'', ''cached_1003_2''] \<and>
       map cq_expires_at (cached_list (snd r)) = [500 + TTL, 1000 + TTL, 1000 + TTL] \<and>
       (\<exists>old new. set old \<subseteq> set (cached_list s) \<and> length new = 2 \<and>
          cached_list (snd r) = old @ new) \<and>
       cacheQuestions None 1000 fetch (\<lambda>i. 1001 + int i) 1005 (\<lambda>k. 1006)
         ''arithmetic'' 3 (Some 2) s = (Inr 0, s\<lparr>isOnline := False\<rparr>))"
proof -
  let ?s = "(initial_state :: nat state)
              \<lparr>offline_questions := Some
                 [\<lparr>cq_id = ''cached_100_0'', cq_topic_slug = ''algebra'',
                   cq_difficulty_tier = 1, cq_question = 4, cq_cached_at = 100,
                   cq_expires_at = 900\<rparr>,
                  \<lparr>cq_id = ''cached_500_0'', cq_topic_slug = ''algebra'',
                   cq_difficulty_tier = 1, cq_question = 5, cq_cached_at = 500,
                   cq_expires_at = 500 + TTL\<rparr>]\<rparr>"
  let ?fetch = "\<lambda>i::nat. if i = 1 then Inl (ApiError ''timeout'') else Inr (7 + i)"
  let ?r = "cacheQuestions (Some True) 1000 ?fetch (\<lambda>i. 1001 + int i) 1005 (\<lambda>k. 1006)
              ''arithmetic'' 3 (Some 2) ?s"
  have nf: "storage_faults ?s = []"
    by (simp add: initial_state_def)
  note inst = fill_caches_successful_fetches
    [OF nf, of None 1000 ?fetch "\<lambda>i. 1001 + int i" 1005 "\<lambda>k. 1006" "''arithmetic''" 3 "Some 2"]
  from inst have off: "cacheQuestions None 1000 ?fetch (\<lambda>i. 1001 + int i) 1005 (\<lambda>k. 1006)
         ''arithmetic'' 3 (Some 2) ?s = (Inr 0, ?s\<lparr>isOnline := False\<rparr>)"
    by blast
  from inst [THEN conjunct2] obtain new :: "nat CachedQuestion list" and s' where
    run: "?r = (Inr (length new), s')" and
    len: "length new = length (filter (\<lambda>j. \<not> isl (?fetch j)) [0..<3])" and
    app: "(\<forall>k::nat. (1006 :: int) < 1000 + TTL) \<longrightarrow>
          (\<exists>old. set old \<subseteq> set (cached_list ?s) \<and> cached_list s' = old @ new)"
    by (elim exE conjE) (rule that)
  have two: "length (filter (\<lambda>j. \<not> isl (?fetch j)) [0..<3]) = 2"
    by (simp add: upt_rec)
  with run len have c1: "fst ?r = Inr 2"
    by simp
  from run have s': "snd ?r = s'"
    by simp
  have "\<forall>k::nat. (1006 :: int) < 1000 + TTL"
    by (simp add: TTL_def)
  with app obtain old where "set old \<subseteq> set (cached_list ?s)" "cached_list s' = old @ new"
    by blast
  with len two have c6: "\<exists>old new. set old \<subseteq> set (cached_list ?s) \<and> length new = 2 \<and>
          cached_list (snd ?r) = old @ new"
    unfolding s' by auto
  have c2: "api_log (snd ?r) =
         [GenerateQuestion ''arithmetic'' (Some 2) True,
          GenerateQuestion ''arithmetic'' (Some 2) True,
          GenerateQuestion ''arithmetic'' (Some 2) True]"
    by (simp add: eval_defs)
  have cl: "cached_list (snd ?r) =
    [\<lparr>cq_id = ''cached_500_0'', cq_topic_slug = ''algebra'',
      cq_difficulty_tier = 1, cq_question = 5, cq_cached_at = 500,
      cq_expires_at = 500 + TTL\<rparr>,
     \<lparr>cq_id = ''cached_1001_0'', cq_topic_slug = ''arithmetic'',
      cq_difficulty_tier = 2, cq_question = 7, cq_cached_at = 1000,
      cq_expires_at = 1000 + TTL\<rparr>,
     \<lparr>cq_id = ''cached_1003_2'', cq_topic_slug = ''arithmetic'',
      cq_difficulty_tier = 2, cq_question = 9, cq_cached_at = 1000,
      cq_expires_at = 1000 + TTL\<rparr>]"
    by (simp add: eval_defs)
  have c3: "map cq_question (cached_list (snd ?r)) = [5, 7, 9]"
    unfolding cl by simp
  have c4: "map cq_id (cached_list (snd ?r)) =
      [''cached_500_0'', ''cached_1001_0'', ''cached_1003_2'']"
    unfolding cl by simp
  have c5: "map cq_expires_at (cached_list (snd ?r)) = [500 + TTL, 1000 + TTL, 1000 + TTL]"
    unfolding cl by simp
  show ?thesis
    unfolding Let_def by (intro conjI nf c1 c2 c3 c4 c5 c6 off)
qed

subsection \<open>Identifiers\<close>

text \<open>The decimal form of a number determines the number.\<close>

lemma digit_char_inj: "a < 10 \<Longrightarrow> b < 10 \<Longrightarrow> digit_char a = digit_char b \<Longrightarrow> a = b"
proof -
  assume a: "a < 10" and b: "b < 10" and eq: "digit_char a = digit_char b"
  have d: "distinct ''0123456789''" by simp
  have "a < length ''0123456789''" "b < length ''0123456789''" using a b by simp_all
  with d eq show "a = b" unfolding digit_char_def by (simp only: nth_eq_iff_index_eq)
qed

lemma digit_char_range: "a < 10 \<Longrightarrow> digit_char a \<noteq> CHR ''_'' \<and> digit_char a \<noteq> CHR ''-''"
proof -
  assume a: "a < 10"
  then have "a < length ''0123456789''" by simp
  then have "digit_char a \<in> set ''0123456789''" unfolding digit_char_def by (rule nth_mem)
  moreover have "CHR ''_'' \<notin> set ''0123456789''" "CHR ''-'' \<notin> set ''0123456789''" by simp_all
  ultimately show ?thesis by metis
qed

lemma digits_small: "n < 10 \<Longrightarrow> digits n = [digit_char n]"
  by (subst digits.simps) simp

lemma digits_large: "\<not> n < 10 \<Longrightarrow> digits n = digits (n div 10) @ [digit_char (n mod 10)]"
  by (subst digits.simps) simp

lemma digits_nonempty: "digits n \<noteq> []"
  by (cases "n < 10") (simp_all add: digits_small digits_large)

lemma digits_chars: "c \<in> set (digits n) \<Longrightarrow> c \<noteq> CHR ''_'' \<and> c \<noteq> CHR ''-''"
proof (induction n rule: digits.induct)
  case (1 n)
  show ?case
  proof (cases "n < 10")
    case True
    with "1.prems" have c: "c = digit_char n" by (simp add: digits_small)
    show ?thesis unfolding c by (rule digit_char_range [OF True])
  next
    case False
    from "1.prems" have "c = digit_char (n mod 10) \<or> c \<in> set (digits (n div 10))"
      unfolding digits_large [OF False] by simp
    then show ?thesis
    proof
      assume c: "c = digit_char (n mod 10)"
      have "n mod 10 < 10" by simp
      then show ?thesis unfolding c by (rule digit_char_range)
    next
      assume "c \<in> set (digits (n div 10))"
      then show ?thesis by (rule "1.IH" [OF False])
    qed
  qed
qed

lemma digits_inj: "digits n = digits m \<Longrightarrow> n = m"
proof (induction n arbitrary: m rule: digits.induct)
  case (1 n)
  show ?case
  proof (cases "n < 10")
    case n: True
    show ?thesis
    proof (cases "m < 10")
      case True
      from "1.prems" have "digit_char n = digit_char m"
        unfolding digits_small [OF n] digits_small [OF True] by simp
      with n True show ?thesis by (rule digit_char_inj)
    next
      case False
      from "1.prems" have "[digit_char n] = digits (m div 10) @ [digit_char (m mod 10)]"
        unfolding digits_small [OF n] digits_large [OF False] .
      then have "digits (m div 10) = []" by simp
      with digits_nonempty show ?thesis by blast
    qed
  next
    case n: False
    show ?thesis
    proof (cases "m < 10")
      case True
      from "1.prems" have "digits (n div 10) @ [digit_char (n mod 10)] = [digit_char m]"
        unfolding digits_small [OF True] digits_large [OF n] .
      then have "digits (n div 10) = []" by simp
      with digits_nonempty show ?thesis by blast
    next
      case False
      from "1.prems" have
        "digits (n div 10) @ [digit_char (n mod 10)] = digits (m div 10) @ [digit_char (m mod 10)]"
        unfolding digits_large [OF False] digits_large [OF n] .
      then have
        d: "digits (n div 10) = digits (m div 10)" and
        c: "digit_char (n mod 10) = digit_char (m mod 10)"
        by simp_all
      from "1.IH" [OF n d] have "n div 10 = m div 10" .
      moreover from c have "n mod 10 = m mod 10"
        by (rule digit_char_inj [rotated 2]) simp_all
      ultimately show ?thesis
        by (metis div_mult_mod_eq)
    qed
  qed
qed

lemma show_int_inj: "show_int a = show_int b \<Longrightarrow> a = b"
proof -
  assume eq: "show_int a = show_int b"
  have hd_digits: "\<And>n. hd (digits n) \<noteq> CHR ''-''"
    using digits_chars digits_nonempty by (metis list.set_sel(1))
  show ?thesis
  proof (cases "a < 0")
    case a: True
    show ?thesis
    proof (cases "b < 0")
      case True
      with a eq have "digits (nat (- a)) = digits (nat (- b))" by (simp add: show_int_def)
      then have "nat (- a) = nat (- b)" by (rule digits_inj)
      with a True show ?thesis by simp
    next
      case False
      with a eq have "CHR ''-'' # digits (nat (- a)) = digits (nat b)" by (simp add: show_int_def)
      then have "hd (digits (nat b)) = CHR ''-''" by (metis list.sel(1))
      with hd_digits show ?thesis by blast
    qed
  next
    case a: False
    show ?thesis
    proof (cases "b < 0")
      case True
      with a eq have "digits (nat a) = CHR ''-'' # digits (nat (- b))" by (simp add: show_int_def)
      then have "hd (digits (nat a)) = CHR ''-''" by (metis list.sel(1))
      with hd_digits show ?thesis by blast
    next
      case False
      with a eq have "digits (nat a) = digits (nat b)" by (simp add: show_int_def)
      then have "nat a = nat b" by (rule digits_inj)
      with a False show ?thesis by simp
    qed
  qed
qed

lemma show_int_no_underscore: "CHR ''_'' \<notin> set (show_int a)"
proof
  assume "CHR ''_'' \<in> set (show_int a)"
  then have "CHR ''_'' \<in> set (digits (nat (- a))) \<or> CHR ''_'' \<in> set (digits (nat a))"
    by (simp add: show_int_def split: if_splits)
  then show False using digits_chars by blast
qed

lemma split_at_sep:
  assumes "xs @ c # ys = xs' @ c # ys'" and "c \<notin> set xs" and "c \<notin> set xs'"
  shows "xs = xs' \<and> ys = ys'"
  using assms
proof (induction xs arbitrary: xs')
  case Nil
  then show ?case by (cases xs') auto
next
  case (Cons x xs)
  then show ?case by (cases xs') auto
qed

lemma cached_id_inj:
  assumes "''cached_'' @ show_int a @ ''_'' @ digits i = ''cached_'' @ show_int b @ ''_'' @ digits j"
  shows "a = b \<and> i = j"
proof -
  from assms have "show_int a @ CHR ''_'' # digits i = show_int b @ CHR ''_'' # digits j"
    by simp
  then have "show_int a = show_int b \<and> digits i = digits j"
    by (rule split_at_sep) (rule show_int_no_underscore)+
  then show ?thesis
    using show_int_inj digits_inj by blast
qed

subsection \<open>Queueing answers\<close>

lemma queueAnswer_ok:
  assumes "storage_faults s = []"
  shows "queueAnswer id_at answered stats_at question_id user_answer response_time_ms topic_slug s =
     (Inr (),
      s\<lparr>pending_answers := Some (pending_list s @
           [\<lparr>pa_id = ''pending_'' @ show_int id_at, pa_question_id = question_id,
             pa_user_answer = user_answer, pa_response_time_ms = response_time_ms,
             pa_answered_at = answered, pa_topic_slug = topic_slug\<rparr>]),
        offline_stats := Some
           \<lparr>questions_answered_offline =
              (case offline_stats s of None \<Rightarrow> 0 | Some st \<Rightarrow> questions_answered_offline st) + 1,
            last_offline_practice = Some stats_at\<rparr>\<rparr>)"
  using assms
  by (simp add: queueAnswer_def getPendingAnswers_ok updateOfflineStats_def await_def
        try_catch_def resolve_def getItem_def setItem_def storage_call_def Let_def
        pending_list_def split: option.splits)

lemma updateOfflineStats_keeps:
  assumes "updateOfflineStats now answered s = (r, s')"
  shows "r = Inr () \<and> pending_answers s' = pending_answers s"
  using assms
  by (auto simp: updateOfflineStats_def task_defs Let_def
           split: list.splits bool.splits option.splits if_splits)

lemma queueAnswer_returned:
  assumes "queueAnswer id_at answered stats_at question_id user_answer response_time_ms
             topic_slug s = (Inr (), s1)"
  shows "\<exists>before. pending_list s1 = before @
           [\<lparr>pa_id = ''pending_'' @ show_int id_at, pa_question_id = question_id,
             pa_user_answer = user_answer, pa_response_time_ms = response_time_ms,
             pa_answered_at = answered, pa_topic_slug = topic_slug\<rparr>]"
proof -
  let ?e = "\<lparr>pa_id = ''pending_'' @ show_int id_at, pa_question_id = question_id,
             pa_user_answer = user_answer, pa_response_time_ms = response_time_ms,
             pa_answered_at = answered, pa_topic_slug = topic_slug\<rparr>"
  let ?s0 = "s\<lparr>storage_faults := tl (storage_faults s)\<rparr>"
  from getPendingAnswers_resolves [of s] obtain existing where
    p: "getPendingAnswers s = (Inr existing, ?s0)"
    by blast
  obtain w sw where w: "setItem pending_answers_update (existing @ [?e]) ?s0 = (w, sw)"
    by (metis surj_pair)
  show ?thesis
  proof (cases w)
    case (Inl error)
    with assms p w show ?thesis
      by (simp add: queueAnswer_def await_def Let_def)
  next
    case (Inr u)
    from w Inr have sw: "pending_answers sw = Some (existing @ [?e])"
      by (auto simp: setItem_def storage_call_def split: list.splits bool.splits)
    from assms p w Inr have "updateOfflineStats stats_at True sw = (Inr (), s1)"
      by (simp add: queueAnswer_def await_def Let_def)
    from updateOfflineStats_keeps [OF this] sw
    have "pending_list s1 = existing @ [?e]"
      by (simp add: pending_list_def)
    then show ?thesis by blast
  qed
qed

text \<open>
  C6, as the code has it. \<open>queueAnswer\<close> gives the new answer the identifier
  \<open>pending_\<close> followed by the decimal clock reading the call took. A call that returns
  has stored the new answer as the last entry of the queue; with a working store every
  call returns and the answers queued before stay before it in their order, so that two
  successive calls leave the old queue followed by the first and the second new answer.
  The identifiers of two calls are equal exactly when the two readings are equal, and
  whatever numbers the two identifiers print are ordered as the readings of the two
  calls are.
\<close>

theorem enqueue_identifier_is_clock_reading:
  "(let e1 = \<lparr>pa_id = ''pending_'' @ show_int t1, pa_question_id = q1, pa_user_answer = u1,
              pa_response_time_ms = r1, pa_answered_at = a1, pa_topic_slug = tp1\<rparr>;
        e2 = \<lparr>pa_id = ''pending_'' @ show_int t2, pa_question_id = q2, pa_user_answer = u2,
              pa_response_time_ms = r2, pa_answered_at = a2, pa_topic_slug = tp2\<rparr>
    in (\<forall>s1. queueAnswer t1 a1 st1 q1 u1 r1 tp1 s = (Inr (), s1) \<longrightarrow>
          pending_list s1 \<noteq> [] \<and> last (pending_list s1) = e1) \<and>
       (storage_faults s = [] \<longrightarrow>
          (\<exists>s1 s2.
             queueAnswer t1 a1 st1 q1 u1 r1 tp1 s = (Inr (), s1) \<and>
             queueAnswer t2 a2 st2 q2 u2 r2 tp2 s1 = (Inr (), s2) \<and>
             pending_list s1 = pending_list s @ [e1] \<and>
             pending_list s2 = pending_list s @ [e1, e2])) \<and>
       (pa_id e1 = pa_id e2) = (t1 = t2) \<and>
       (\<forall>n1 n2. pa_id e1 = ''pending_'' @ show_int n1 \<and> pa_id e2 = ''pending_'' @ show_int n2 \<longrightarrow>
          (n1 < n2) = (t1 < t2)))"
proof -
  let ?e1 = "\<lparr>pa_id = ''pending_'' @ show_int t1, pa_question_id = q1, pa_user_answer = u1,
              pa_response_time_ms = r1, pa_answered_at = a1, pa_topic_slug = tp1\<rparr>"
  let ?e2 = "\<lparr>pa_id = ''pending_'' @ show_int t2, pa_question_id = q2, pa_user_answer = u2,
              pa_response_time_ms = r2, pa_answered_at = a2, pa_topic_slug = tp2\<rparr>"
  have last_entry: "\<forall>s1. queueAnswer t1 a1 st1 q1 u1 r1 tp1 s = (Inr (), s1) \<longrightarrow>
          pending_list s1 \<noteq> [] \<and> last (pending_list s1) = ?e1"
  proof (intro allI impI)
    fix s1
    assume "queueAnswer t1 a1 st1 q1 u1 r1 tp1 s = (Inr (), s1)"
    from queueAnswer_returned [OF this] obtain before where
      "pending_list s1 = before @ [?e1]"
      by blast
    then show "pending_list s1 \<noteq> [] \<and> last (pending_list s1) = ?e1"
      by simp
  qed
  have working: "\<exists>s1 s2.
             queueAnswer t1 a1 st1 q1 u1 r1 tp1 s = (Inr (), s1) \<and>
             queueAnswer t2 a2 st2 q2 u2 r2 tp2 s1 = (Inr (), s2) \<and>
             pending_list s1 = pending_list s @ [?e1] \<and>
             pending_list s2 = pending_list s @ [?e1, ?e2]"
    if nf: "storage_faults s = []"
  proof -
    let ?s1 = "s\<lparr>pending_answers := Some (pending_list s @ [?e1]),
        offline_stats := Some
           \<lparr>questions_answered_offline =
              (case offline_stats s of None \<Rightarrow> 0 | Some st \<Rightarrow> questions_answered_offline st) + 1,
            last_offline_practice = Some st1\<rparr>\<rparr>"
    have run1: "queueAnswer t1 a1 st1 q1 u1 r1 tp1 s = (Inr (), ?s1)"
      by (rule queueAnswer_ok [OF nf])
    have nf1: "storage_faults ?s1 = []"
      using nf by simp
    have pl1: "pending_list ?s1 = pending_list s @ [?e1]"
      by (simp add: pending_list_def)
    obtain s2 where run2: "queueAnswer t2 a2 st2 q2 u2 r2 tp2 ?s1 = (Inr (), s2)"
      and pl2: "pending_list s2 = pending_list ?s1 @ [?e2]"
      using queueAnswer_ok [OF nf1, of t2 a2 st2 q2 u2 r2 tp2]
      by (simp add: pending_list_def)
    have pl: "pending_list s2 = pending_list s @ [?e1, ?e2]"
      unfolding pl2 pl1 by simp
    from run1 run2 pl1 pl show ?thesis by blast
  qed
  have ids: "(pa_id ?e1 = pa_id ?e2) = (t1 = t2)"
    using show_int_inj by auto
  have ordered: "\<forall>n1 n2. pa_id ?e1 = ''pending_'' @ show_int n1 \<and>
          pa_id ?e2 = ''pending_'' @ show_int n2 \<longrightarrow> (n1 < n2) = (t1 < t2)"
  proof (intro allI impI)
    fix n1 n2
    assume "pa_id ?e1 = ''pending_'' @ show_int n1 \<and> pa_id ?e2 = ''pending_'' @ show_int n2"
    then have p1: "show_int t1 = show_int n1" and p2: "show_int t2 = show_int n2"
      by simp_all
    from p1 have "t1 = n1" by (rule show_int_inj)
    moreover from p2 have "t2 = n2" by (rule show_int_inj)
    ultimately show "(n1 < n2) = (t1 < t2)" by simp
  qed
  show ?thesis
    unfolding Let_def using last_entry working ids ordered by blast
qed

text \<open>Two calls one second apart, on a store that was never written.\<close>

theorem enqueue_identifier_is_clock_reading_witness:
  "(let s = (initial_state :: nat state);
        first_call = queueAnswer 1000 1000 1000 ''q1'' ''4'' 900 ''arithmetic'' s;
        second_call = queueAnswer 2000 2000 2000 ''q2'' ''5'' 800 ''arithmetic'' (snd first_call)
    in storage_faults s = [] \<and>
       fst first_call = Inr () \<and> fst second_call = Inr () \<and>
       map pa_id (pending_list (snd first_call)) = [''pending_1000''] \<and>
       pa_id (last (pending_list (snd first_call))) = ''pending_1000'' \<and>
       map pa_id (pending_list (snd second_call)) = [''pending_1000'', ''pending_2000''] \<and>
       map pa_question_id (pending_list (snd second_call)) = [''q1'', ''q2''] \<and>
       distinct (map pa_id (pending_list (snd second_call))))"
proof -
  let ?s = "initial_state :: nat state"
  let ?c1 = "queueAnswer 1000 1000 1000 ''q1'' ''4'' 900 ''arithmetic'' ?s"
  let ?e1 = "\<lparr>pa_id = ''pending_'' @ show_int 1000, pa_question_id = ''q1'',
              pa_user_answer = ''4'', pa_response_time_ms = 900, pa_answered_at = 1000,
              pa_topic_slug = ''arithmetic''\<rparr>"
  let ?e2 = "\<lparr>pa_id = ''pending_'' @ show_int 2000, pa_question_id = ''q2'',
              pa_user_answer = ''5'', pa_response_time_ms = 800, pa_answered_at = 2000,
              pa_topic_slug = ''arithmetic''\<rparr>"
  note inst = enqueue_identifier_is_clock_reading
    [where s = ?s and ?t1.0 = 1000 and ?a1.0 = 1000 and ?st1.0 = 1000 and ?q1.0 = "''q1''"
       and ?u1.0 = "''4''" and ?r1.0 = 900 and ?tp1.0 = "''arithmetic''"
       and ?t2.0 = 2000 and ?a2.0 = 2000 and ?st2.0 = 2000 and ?q2.0 = "''q2''"
       and ?u2.0 = "''5''" and ?r2.0 = 800 and ?tp2.0 = "''arithmetic''", unfolded Let_def]
  have nf: "storage_faults ?s = []"
    by (simp add: initial_state_def)
  have empty: "pending_list ?s = []"
    by (simp add: pending_list_def initial_state_def)
  from inst nf obtain s1 s2 where
    run1: "?c1 = (Inr (), s1)" and
    run2: "queueAnswer 2000 2000 2000 ''q2'' ''5'' 800 ''arithmetic'' s1 = (Inr (), s2)" and
    pl1: "pending_list s1 = pending_list ?s @ [?e1]" and
    pl2: "pending_list s2 = pending_list ?s @ [?e1, ?e2]"
    by blast
  from inst run1 have lst: "last (pending_list s1) = ?e1"
    by blast
  from inst have "(pa_id ?e1 = pa_id ?e2) = ((1000 :: int) = 2000)"
    by blast
  then have differ: "pa_id ?e1 \<noteq> pa_id ?e2"
    by simp
  from inst have "pa_id ?e1 = ''pending_'' @ show_int 1000 \<and>
      pa_id ?e2 = ''pending_'' @ show_int 2000 \<longrightarrow> ((1000 :: int) < 2000) = ((1000 :: int) < 2000)"
    by blast
  have s1: "snd ?c1 = s1"
    using run1 by simp
  have n1: "''pending_'' @ show_int 1000 = ''pending_1000''"
    by (simp add: show_int_def digits.simps digit_char_def)
  have n2: "''pending_'' @ show_int 2000 = ''pending_2000''"
    by (simp add: show_int_def digits.simps digit_char_def)
  have c1: "fst ?c1 = Inr ()"
    using run1 by simp
  have c2: "fst (queueAnswer 2000 2000 2000 ''q2'' ''5'' 800 ''arithmetic'' s1) = Inr ()"
    using run2 by simp
  have c3: "map pa_id (pending_list s1) = [''pending_1000'']"
    unfolding pl1 empty using n1 by simp
  have c4: "pa_id (last (pending_list s1)) = ''pending_1000''"
    unfolding lst using n1 by simp
  have s2: "snd (queueAnswer 2000 2000 2000 ''q2'' ''5'' 800 ''arithmetic'' s1) = s2"
    using run2 by simp
  have c5: "map pa_id (pending_list s2) = [''pending_1000'', ''pending_2000'']"
    unfolding pl2 empty using n1 n2 by simp
  have c6: "map pa_question_id (pending_list s2) = [''q1'', ''q2'']"
    unfolding pl2 empty by simp
  have c7: "distinct (map pa_id (pending_list s2))"
    unfolding pl2 empty using differ by simp
  show ?thesis
    unfolding Let_def s1 s2 by (intro conjI nf c1 c2 c3 c4 c5 c6 c7)
qed

text \<open>
  Against C6 as stated: two calls of \<open>queueAnswer\<close> that read the same millisecond
  queue two answers with one identifier.
\<close>

theorem enqueue_same_millisecond_same_identifier:
  "map pa_id (pending_list
     (snd (queueAnswer 1000 1000 1000 ''q2'' ''5'' 800 ''arithmetic''
        (snd (queueAnswer 1000 1000 1000 ''q1'' ''4'' 900 ''arithmetic''
           (initial_state :: nat state)))))) = [''pending_1000'', ''pending_1000''] \<and>
   map pa_question_id (pending_list
     (snd (queueAnswer 1000 1000 1000 ''q2'' ''5'' 800 ''arithmetic''
        (snd (queueAnswer 1000 1000 1000 ''q1'' ''4'' 900 ''arithmetic''
           (initial_state :: nat state)))))) = [''q1'', ''q2'']"
  by (simp add: queueAnswer_def getPendingAnswers_def updateOfflineStats_def await_def
        try_catch_def resolve_def getItem_def setItem_def storage_call_def Let_def
        pending_list_def initial_state_def show_int_def digits.simps digit_char_def)

subsection \<open>Histories of the cache\<close>

lemma stamped_raise:
  assumes "stamped bound x"
  shows "stamped (raise_bound t bound) x"
proof -
  from assms obtain u i hi where
    b: "bound = Some hi" and x: "x = ''cached_'' @ show_int u @ ''_'' @ digits i" and
    le: "u \<le> hi"
    unfolding stamped_def by blast
  have "raise_bound t bound = Some (max hi t)" and "u \<le> max hi t"
    using b le by (simp_all add: raise_bound_def)
  with x show ?thesis unfolding stamped_def by blast
qed

lemma stamped_fold:
  "stamped bound x \<Longrightarrow> stamped (fold raise_bound ts bound) x"
proof (induction ts arbitrary: bound)
  case Nil
  then show ?case by simp
next
  case (Cons t ts)
  from Cons.IH [OF stamped_raise [OF Cons.prems, of t]] show ?case by simp
qed

lemma stamped_new:
  "t \<in> set ts \<Longrightarrow>
   stamped (fold raise_bound ts bound) (''cached_'' @ show_int t @ ''_'' @ digits i)"
proof (induction ts arbitrary: bound)
  case Nil
  then show ?case by simp
next
  case (Cons u ts)
  show ?case
  proof (cases "t = u")
    case True
    have "\<exists>hi. raise_bound u bound = Some hi \<and> u \<le> hi"
      by (cases bound) (simp_all add: raise_bound_def)
    then have "stamped (raise_bound u bound) (''cached_'' @ show_int t @ ''_'' @ digits i)"
      unfolding stamped_def True by blast
    from stamped_fold [OF this, of ts] show ?thesis by simp
  next
    case False
    with Cons.prems have "t \<in> set ts" by simp
    from Cons.IH [OF this, of "raise_bound u bound"] show ?thesis by simp
  qed
qed

lemma stamped_not_later:
  assumes "stamped bound x" and "x = ''cached_'' @ show_int t @ ''_'' @ digits i"
    and "later_than bound t"
  shows False
proof -
  from assms(1) obtain t' i' hi where
    b: "bound = Some hi" and
    x: "x = ''cached_'' @ show_int t' @ ''_'' @ digits i'" and le: "t' \<le> hi"
    unfolding stamped_def by blast
  from x assms(2) have "''cached_'' @ show_int t' @ ''_'' @ digits i' =
      ''cached_'' @ show_int t @ ''_'' @ digits i"
    by simp
  then have "t' = t" using cached_id_inj by blast
  with le b assms(3) show False by (simp add: later_than_def)
qed

lemma cacheQuestions_cache:
  assumes "cacheQuestions isConnected now fetch clock read_at sweep topic_slug count
             difficulty_tier s = (r, s')"
  shows "set (cached_list s') \<subseteq>
     set (cached_list s) \<union>
     set (new_entries fetch clock topic_slug difficulty_tier now (now + TTL) [0..<count])"
proof (cases "isConnected = Some True")
  case False
  with assms cacheQuestions_offline [of isConnected now fetch clock read_at sweep topic_slug
         count difficulty_tier s]
  show ?thesis by (auto simp: cached_list_def)
next
  case True
  let ?new = "new_entries fetch clock topic_slug difficulty_tier now (now + TTL) [0..<count]"
  let ?s2 = "s\<lparr>isOnline := True,
        api_log := api_log s @ replicate count (GenerateQuestion topic_slug difficulty_tier True)\<rparr>"
  obtain r3 s3 where g: "getCachedQuestions read_at None ?s2 = (r3, s3)"
    by (metis surj_pair)
  from getCachedQuestions_sound [OF g] obtain existing where
    r3: "r3 = Inr existing" and
    ex: "existing = [] \<or> existing = filter (topic_match None)
           (filter (\<lambda>q. read_at < cq_expires_at q) (cached_list ?s2))" and
    s3: "s3 = ?s2\<lparr>storage_faults := tl (storage_faults ?s2)\<rparr>"
    by blast
  have sub: "set existing \<subseteq> set (cached_list s)"
    using ex by (auto simp: cached_list_def)
  have cl3: "cached_list s3 = cached_list s"
    unfolding s3 by (simp add: cached_list_def)
  have "cached_list s' = cached_list s3 \<or>
        cached_list s' = filter_valid sweep 0 (existing @ ?new)"
    using assms True g r3
    by (auto simp: cacheQuestions_def checkOnline_def await_def resolve_def cache_loop_run
          setItem_def storage_call_def Let_def cached_list_def
          split: list.splits bool.splits if_splits)
  then show ?thesis
    using sub cl3 filter_valid_subset [of sweep 0 "existing @ ?new"] by auto
qed

lemma cacheQuestions_offline_cache:
  assumes "cacheQuestions isConnected now fetch clock read_at sweep topic_slug count
             difficulty_tier s = (r, s')" and "isConnected \<noteq> Some True"
  shows "cached_list s' = cached_list s"
  using assms cacheQuestions_offline [of isConnected now fetch clock read_at sweep topic_slug
         count difficulty_tier s]
  by (auto simp: cached_list_def)

lemma fill_keeps_invariant:
  assumes st: "\<forall>x \<in> set taken \<union> cq_id ` set (cached_list s). stamped bound x"
    and dj: "set taken \<inter> cq_id ` set (cached_list s) = {}"
    and fr: "list_all (later_than bound) (id_stamps isConnected fetch clock count)"
    and run: "cacheQuestions isConnected now fetch clock read_at sweep topic_slug count
               difficulty_tier s = (r, s')"
  shows "(\<forall>x \<in> set taken \<union> cq_id ` set (cached_list s').
            stamped (fold raise_bound (id_stamps isConnected fetch clock count) bound) x) \<and>
         set taken \<inter> cq_id ` set (cached_list s') = {}"
proof -
  let ?stamps = "id_stamps isConnected fetch clock count"
  let ?b' = "fold raise_bound ?stamps bound"
  let ?new = "new_entries fetch clock topic_slug difficulty_tier now (now + TTL) [0..<count]"
  have old: "\<forall>x \<in> set taken \<union> cq_id ` set (cached_list s). stamped ?b' x"
    using st stamped_fold by blast
  show ?thesis
  proof (cases "isConnected = Some True")
    case False
    from cacheQuestions_offline_cache [OF run False] old dj show ?thesis by simp
  next
    case True
    have new_id: "\<exists>j. clock j \<in> set ?stamps \<and>
        cq_id q = ''cached_'' @ show_int (clock j) @ ''_'' @ digits j"
      if "q \<in> set ?new" for q
    proof -
      from new_entries_fields [OF that] obtain j where
        j: "j \<in> set [0..<count]" and
        id: "cq_id q = ''cached_'' @ show_int (clock j) @ ''_'' @ digits j" and
        ok: "fetch j = Inr (cq_question q)"
        by blast
      from j ok True have "clock j \<in> set ?stamps"
        by (simp add: id_stamps_def)
      with id show ?thesis by blast
    qed
    have cache: "q \<in> set (cached_list s) \<or> q \<in> set ?new" if "q \<in> set (cached_list s')" for q
      using cacheQuestions_cache [OF run] that by blast
    have stamped': "stamped ?b' (cq_id q)" if "q \<in> set (cached_list s')" for q
    proof -
      from cache [OF that] show ?thesis
      proof
        assume "q \<in> set (cached_list s)"
        with old show ?thesis by blast
      next
        assume "q \<in> set ?new"
        from new_id [OF this] obtain j where
          j: "clock j \<in> set ?stamps" and
          id: "cq_id q = ''cached_'' @ show_int (clock j) @ ''_'' @ digits j"
          by blast
        from stamped_new [OF j, of bound j] show ?thesis unfolding id .
      qed
    qed
    have fresh: "cq_id q \<notin> set taken" if "q \<in> set (cached_list s')" for q
    proof
      assume t: "cq_id q \<in> set taken"
      from cache [OF that] show False
      proof
        assume "q \<in> set (cached_list s)"
        with t dj show False by blast
      next
        assume "q \<in> set ?new"
        from new_id [OF this] obtain j where
          j: "clock j \<in> set ?stamps" and
          id: "cq_id q = ''cached_'' @ show_int (clock j) @ ''_'' @ digits j"
          by blast
        from t st have s: "stamped bound (cq_id q)" by blast
        from fr j have "later_than bound (clock j)" by (simp add: list_all_iff)
        from stamped_not_later [OF s id this] show False .
      qed
    qed
    from old stamped' fresh show ?thesis by auto
  qed
qed

lemma take_keeps_invariant:
  assumes st: "\<forall>x \<in> set taken \<union> cq_id ` set (cached_list s). stamped bound x"
    and dj: "set taken \<inter> cq_id ` set (cached_list s) = {}"
    and ds: "distinct taken"
    and run: "cache_step (Take now1 now2 topic_slug) (taken, s) = (taken', s')"
  shows "(\<forall>x \<in> set taken' \<union> cq_id ` set (cached_list s'). stamped bound x) \<and>
         set taken' \<inter> cq_id ` set (cached_list s') = {} \<and> distinct taken'"
proof -
  obtain r s1 where tf: "take_first now1 now2 topic_slug s = (r, s1)"
    by (metis surj_pair)
  show ?thesis
  proof (cases "\<exists>first. r = Inr (Some first)")
    case True
    then obtain first where r: "r = Inr (Some first)" by blast
    from run tf r have t': "taken' = taken @ [cq_id first]" and s': "s' = s1"
      by simp_all
    from take_first_Some_valid [OF tf [unfolded r]] have mem: "first \<in> set (cached_list s)"
      by simp
    from take_first_Some [OF tf [unfolded r]] obtain kept where
      kept: "kept = [] \<or> kept = filter (\<lambda>q. now2 < cq_expires_at q) (cached_list s)" and
      wr: "offline_questions s1 = Some (filter (\<lambda>q. cq_id q \<noteq> cq_id first) kept)"
      by blast
    have cl: "cached_list s1 = filter (\<lambda>q. cq_id q \<noteq> cq_id first) kept"
      using wr by (simp add: cached_list_def)
    have sub: "set (cached_list s1) \<subseteq> set (cached_list s)"
      unfolding cl using kept by auto
    have gone: "cq_id first \<notin> cq_id ` set (cached_list s1)"
      unfolding cl by auto
    from mem dj have new: "cq_id first \<notin> set taken" by blast
    from mem st have "stamped bound (cq_id first)" by blast
    with st sub have a: "\<forall>x \<in> set taken' \<union> cq_id ` set (cached_list s'). stamped bound x"
      unfolding t' s' by auto
    from dj sub gone have b: "set taken' \<inter> cq_id ` set (cached_list s') = {}"
      unfolding t' s' by auto
    from ds new have c: "distinct taken'"
      unfolding t' by simp
    from a b c show ?thesis by blast
  next
    case False
    then have no: "\<forall>first. r \<noteq> Inr (Some first)" by blast
    from take_first_other [OF tf no] have same: "cached_list s1 = cached_list s"
      by (simp add: cached_list_def)
    from run tf False have "taken' = taken \<and> s' = s1"
      by (cases r) (auto split: option.splits)
    with same st dj ds show ?thesis by simp
  qed
qed

lemma history_invariant:
  assumes "\<forall>x \<in> set taken \<union> cq_id ` set (cached_list s). stamped bound x"
    and "set taken \<inter> cq_id ` set (cached_list s) = {}"
    and "distinct taken"
    and "fresh_stamps bound ops"
  shows "distinct (fst (fold cache_step ops (taken, s))) \<and>
         set (fst (fold cache_step ops (taken, s))) \<inter>
           cq_id ` set (cached_list (snd (fold cache_step ops (taken, s)))) = {}"
  using assms
proof (induction ops arbitrary: taken s bound)
  case Nil
  then show ?case by simp
next
  case (Cons op ops)
  show ?case
  proof (cases op)
    case (Fill isConnected now fetch clock read_at sweep topic_slug count difficulty_tier)
    obtain r s' where run: "cacheQuestions isConnected now fetch clock read_at sweep topic_slug
        count difficulty_tier s = (r, s')"
      by (metis surj_pair)
    from Cons.prems(4) Fill have
      fr: "list_all (later_than bound) (id_stamps isConnected fetch clock count)" and
      rest: "fresh_stamps (fold raise_bound (id_stamps isConnected fetch clock count) bound) ops"
      by simp_all
    from fill_keeps_invariant [OF Cons.prems(1) Cons.prems(2) fr run] have
      a: "\<forall>x \<in> set taken \<union> cq_id ` set (cached_list s').
            stamped (fold raise_bound (id_stamps isConnected fetch clock count) bound) x" and
      b: "set taken \<inter> cq_id ` set (cached_list s') = {}"
      by blast+
    from Cons.IH [OF a b Cons.prems(3) rest] show ?thesis
      using Fill run by simp
  next
    case (Take now1 now2 topic_slug)
    obtain taken' s' where run: "cache_step (Take now1 now2 topic_slug) (taken, s) = (taken', s')"
      by (metis surj_pair)
    from take_keeps_invariant [OF Cons.prems(1) Cons.prems(2) Cons.prems(3) run] have
      a: "\<forall>x \<in> set taken' \<union> cq_id ` set (cached_list s'). stamped bound x" and
      b: "set taken' \<inter> cq_id ` set (cached_list s') = {}" and
      c: "distinct taken'"
      by blast+
    from Cons.prems(4) Take have rest: "fresh_stamps bound ops" by simp
    from Cons.IH [OF a b c rest] show ?thesis
      using Take run by simp
  qed
qed

text \<open>
  C5, as the code has it. Start from an empty cache and run any history of
  \<open>cacheQuestions\<close> and \<open>getOfflineQuestion\<close> calls one after the other, with any
  outcomes of the fetches and any failures of the store. If the clock readings that each
  call of \<open>cacheQuestions\<close> puts into identifiers are later than those that all earlier
  calls put into identifiers, then no two calls of \<open>getOfflineQuestion\<close> return a cached
  question with the same identifier, and no identifier returned is in the stored cache
  at the end of the history.
\<close>

theorem takes_return_distinct_identifiers:
  assumes "cached_list s = []" and "fresh_stamps None ops"
  shows "distinct (fst (run_cache_ops ops s)) \<and>
         set (fst (run_cache_ops ops s)) \<inter>
           cq_id ` set (cached_list (snd (run_cache_ops ops s))) = {}"
  unfolding run_cache_ops_def
  by (rule history_invariant [of "[]" s None ops]) (simp_all add: assms)

text \<open>
  Two questions are cached and one is taken; a call of \<open>cacheQuestions\<close> while offline
  and a failed fetch follow, whose stale clock readings enter no identifier; one more
  question is cached and one more taken.
\<close>

theorem takes_return_distinct_identifiers_witness:
  "(let ops = [Fill (Some True) 1000 (\<lambda>i. Inr (7 + i)) (\<lambda>i. 1001 + int i) 1005 (\<lambda>k. 1006)
                 ''arithmetic'' 2 None,
               Take 2000 2001 ''arithmetic'',
               Fill None 2500 (\<lambda>i. Inr 0) (\<lambda>i. 5) 2505 (\<lambda>k. 2506) ''arithmetic'' 1 None,
               Fill (Some True) 3000
                 (\<lambda>i. if i = 0 then Inl (ApiError ''AxiosError: timeout'') else Inr 9)
                 (\<lambda>i. if i = 0 then 5 else 3001) 3005 (\<lambda>k. 3006) ''arithmetic'' 2 None,
               Take 4000 4001 ''arithmetic''];
        r = run_cache_ops ops (initial_state :: nat state)
    in cached_list (initial_state :: nat state) = [] \<and>
       fresh_stamps None ops \<and>
       fst r = [''cached_1001_0'', ''cached_1002_1''] \<and>
       map cq_id (cached_list (snd r)) = [''cached_3001_1''] \<and>
       distinct (fst r) \<and>
       set (fst r) \<inter> cq_id ` set (cached_list (snd r)) = {})"
proof -
  let ?ops = "[Fill (Some True) 1000 (\<lambda>i. Inr (7 + i)) (\<lambda>i. 1001 + int i) 1005 (\<lambda>k. 1006)
                 ''arithmetic'' 2 None,
               Take 2000 2001 ''arithmetic'',
               Fill None 2500 (\<lambda>i. Inr 0) (\<lambda>i. 5) 2505 (\<lambda>k. 2506) ''arithmetic'' 1 None,
               Fill (Some True) 3000
                 (\<lambda>i. if i = 0 then Inl (ApiError ''AxiosError: timeout'') else Inr 9)
                 (\<lambda>i. if i = 0 then 5 else 3001) 3005 (\<lambda>k. 3006) ''arithmetic'' 2 None,
               Take 4000 4001 ''arithmetic''] :: nat cache_op list"
  let ?r = "run_cache_ops ?ops (initial_state :: nat state)"
  have empty: "cached_list (initial_state :: nat state) = []"
    by (simp add: cached_list_def initial_state_def)
  have fresh: "fresh_stamps None ?ops"
    by (simp add: id_stamps_def later_than_def raise_bound_def upt_rec)
  have ids: "fst ?r = [''cached_1001_0'', ''cached_1002_1'']"
    by (simp add: run_cache_ops_def eval_defs)
  have left: "map cq_id (cached_list (snd ?r)) = [''cached_3001_1'']"
    by (simp add: run_cache_ops_def eval_defs)
  from takes_return_distinct_identifiers [OF empty fresh]
  have d: "distinct (fst ?r)" and
    g: "set (fst ?r) \<inter> cq_id ` set (cached_list (snd ?r)) = {}"
    by blast+
  show ?thesis
    unfolding Let_def by (intro conjI empty fresh ids left d g)
qed

subsection \<open>Overlapping takes\<close>

text \<open>A call that nothing interrupts is the two parts run one after the other.\<close>

lemma take_first_in_parts:
  "take_first now1 now2 topic_slug =
     await (take_pick now1 topic_slug) (\<lambda>picked.
       case picked of
         None \<Rightarrow> resolve None
       | Some first \<Rightarrow> take_remove now2 first)"
proof
  fix s :: "'a state"
  show "take_first now1 now2 topic_slug s =
     await (take_pick now1 topic_slug) (\<lambda>picked.
       case picked of
         None \<Rightarrow> resolve None
       | Some first \<Rightarrow> take_remove now2 first) s"
    by (cases rule: getCachedQuestions_cases [of now1 "Some topic_slug" s])
       (simp_all add: take_first_def take_pick_def take_remove_def await_def resolve_def
          split: list.splits)
qed

text \<open>
  Against C5 as stated, twice. First, one after the other and within one millisecond: a
  question is cached and taken, another one is cached and taken, and both takes return
  the identifier \<open>cached_1000_0\<close>; identifiers are built from the millisecond clock.
  Second, with an ordinary clock but overlapping in time: one question is cached, and a
  second call of \<open>getOfflineQuestion\<close> reads the cache while the first is suspended
  between its read and its write-back. Both calls pick and return the same cached
  question: the removal is not atomic, a defect of the same kind as the guard of
  \<open>syncPendingAnswers\<close> that is set after an await.
\<close>

theorem takes_repeat_identifier:
  "fst (run_cache_ops
     [Fill (Some True) 1000 (\<lambda>i. Inr 7) (\<lambda>i. 1000) 1000 (\<lambda>k. 1000) ''arithmetic'' 1 None,
      Take 1000 1000 ''arithmetic'',
      Fill (Some True) 1000 (\<lambda>i. Inr 8) (\<lambda>i. 1000) 1000 (\<lambda>k. 1000) ''arithmetic'' 1 None,
      Take 1000 1000 ''arithmetic'']
     (initial_state :: nat state)) = [''cached_1000_0'', ''cached_1000_0''] \<and>
   (let cached = \<lparr>cq_id = ''cached_1001_0'', cq_topic_slug = ''arithmetic'',
                  cq_difficulty_tier = 1, cq_question = 7, cq_cached_at = 1000,
                  cq_expires_at = 1000 + TTL\<rparr>;
        s0 = snd (cacheQuestions (Some True) 1000 (\<lambda>i. Inr 7) (\<lambda>i. 1001) 1005 (\<lambda>k. 1006)
                    ''arithmetic'' 1 None (initial_state :: nat state));
        first_picked = take_pick 2000 ''arithmetic'' s0;
        second_picked = take_pick 2001 ''arithmetic'' (snd first_picked);
        first_done = take_remove 2002 cached (snd second_picked);
        second_done = take_remove 2003 cached (snd first_done)
    in cached_list s0 = [cached] \<and>
       fst first_picked = Inr (Some cached) \<and>
       fst second_picked = Inr (Some cached) \<and>
       fst first_done = Inr (Some cached) \<and>
       fst second_done = Inr (Some cached) \<and>
       cached_list (snd second_done) = [])"
  by (simp add: run_cache_ops_def eval_defs take_pick_def take_remove_def)

subsection \<open>Failures of the store\<close>

lemma guarded_reads_resolve:
  "\<not> isl (fst (getCachedQuestions now topic s))"
  "\<not> isl (fst (getCacheCount now topic s))"
  "\<not> isl (fst (getPendingAnswers s))"
  "\<not> isl (fst (getProgress s))"
  "\<not> isl (fst (updateOfflineStats now answered s))"
proof -
  show "\<not> isl (fst (getCachedQuestions now topic s))"
    by (cases rule: getCachedQuestions_cases [of now topic s]) simp_all
  show "\<not> isl (fst (getCacheCount now topic s))"
    by (cases rule: getCachedQuestions_cases [of now topic s])
       (simp_all add: getCacheCount_def await_def resolve_def)
  show "\<not> isl (fst (getPendingAnswers s))"
    by (simp add: getPendingAnswers_def task_defs
          split: list.splits bool.splits option.splits)
  show "\<not> isl (fst (getProgress s))"
    by (simp add: getProgress_def task_defs split: list.splits bool.splits)
  show "\<not> isl (fst (updateOfflineStats now answered s))"
    by (simp add: updateOfflineStats_def task_defs Let_def
          split: list.splits bool.splits option.splits)
qed

lemma getOfflineStats_resolves: "\<not> isl (fst (getOfflineStats now s))"
  by (simp add: getOfflineStats_def try_catch_def await_def resolve_def
        split: prod.splits sum.splits)

lemma read_fault_defaults:
  assumes "storage_faults s = True # fs"
  shows "getCachedQuestions now topic s = (Inr [], s\<lparr>storage_faults := fs\<rparr>)"
    and "getCacheCount now topic s = (Inr 0, s\<lparr>storage_faults := fs\<rparr>)"
    and "getPendingAnswers s = (Inr [], s\<lparr>storage_faults := fs\<rparr>)"
    and "getProgress s = (Inr None, s\<lparr>storage_faults := fs\<rparr>)"
    and "updateOfflineStats now answered s = (Inr (), s\<lparr>storage_faults := fs\<rparr>)"
    and "fst (getOfflineStats now s) =
           Inr \<lparr>sm_questions_answered_offline = 0, sm_pending_sync = 0,
                sm_cached_questions = 0, sm_last_sync = None\<rparr>"
proof -
  show "getCachedQuestions now topic s = (Inr [], s\<lparr>storage_faults := fs\<rparr>)"
    using assms by (rule getCachedQuestions_fault)
  then show "getCacheCount now topic s = (Inr 0, s\<lparr>storage_faults := fs\<rparr>)"
    by (simp add: getCacheCount_def await_def resolve_def)
  show "getPendingAnswers s = (Inr [], s\<lparr>storage_faults := fs\<rparr>)"
    using assms by (simp add: getPendingAnswers_def task_defs)
  show "getProgress s = (Inr None, s\<lparr>storage_faults := fs\<rparr>)"
    using assms by (simp add: getProgress_def task_defs)
  show "updateOfflineStats now answered s = (Inr (), s\<lparr>storage_faults := fs\<rparr>)"
    using assms by (simp add: updateOfflineStats_def task_defs)
  show "fst (getOfflineStats now s) =
           Inr \<lparr>sm_questions_answered_offline = 0, sm_pending_sync = 0,
                sm_cached_questions = 0, sm_last_sync = None\<rparr>"
    using assms
    by (simp add: getOfflineStats_def both_def try_catch_def await_def resolve_def getItem_def
          storage_call_def split: prod.splits sum.splits)
qed

lemma write_fault_propagates:
  assumes "storage_faults s = f # True # fs"
  shows "fst (queueAnswer id_at answered stats_at question_id user_answer response_time_ms
                topic_slug s) = Inl StorageError"
    and "fst (cacheQuestions (Some True) now fetch clock read_at sweep topic_slug count
                difficulty_tier s) = Inl StorageError"
    and "fst (clearExpiredCache read_at now s) = Inl StorageError"
proof -
  let ?s1 = "s\<lparr>storage_faults := True # fs\<rparr>"
  from getPendingAnswers_resolves [of s] assms obtain pending where
    p: "getPendingAnswers s = (Inr pending, ?s1)"
    by auto
  show "fst (queueAnswer id_at answered stats_at question_id user_answer response_time_ms
                topic_slug s) = Inl StorageError"
    by (simp add: queueAnswer_def await_def p setItem_def storage_call_def Let_def)
  have g: "\<exists>qs. getCachedQuestions t topic s' = (Inr qs, s'\<lparr>storage_faults := True # fs\<rparr>)"
    if "storage_faults s' = f # True # fs" for t topic and s' :: "'a state"
    using getCachedQuestions_sound [of t topic s'] that
    by (metis list.sel(3) surj_pair)
  let ?s2 = "s\<lparr>isOnline := True,
        api_log := api_log s @ replicate count (GenerateQuestion topic_slug difficulty_tier True)\<rparr>"
  from g [of ?s2 read_at None] assms obtain existing where
    e: "getCachedQuestions read_at None ?s2 = (Inr existing, ?s2\<lparr>storage_faults := True # fs\<rparr>)"
    by auto
  show "fst (cacheQuestions (Some True) now fetch clock read_at sweep topic_slug count
                difficulty_tier s) = Inl StorageError"
    by (simp add: cacheQuestions_def checkOnline_def await_def resolve_def cache_loop_run e
          setItem_def storage_call_def Let_def)
  from g [of s read_at None] assms obtain questions where
    q: "getCachedQuestions read_at None s = (Inr questions, ?s1)"
    by auto
  show "fst (clearExpiredCache read_at now s) = Inl StorageError"
    by (simp add: clearExpiredCache_def await_def q setItem_def storage_call_def Let_def)
qed

lemma sync_write_fault_propagates:
  assumes "\<not> syncInProgress s" and "storage_faults s = f # True # fs"
  shows "fst (syncPendingAnswers (Some True) respond synced_at s) = Inl StorageError"
    and "\<not> syncInProgress (snd (syncPendingAnswers (Some True) respond synced_at s))"
proof -
  let ?s1 = "s\<lparr>isOnline := True, syncInProgress := True\<rparr>"
  from getPendingAnswers_resolves [of ?s1] assms obtain pending where
    p: "getPendingAnswers ?s1 = (Inr pending, ?s1\<lparr>storage_faults := True # fs\<rparr>)"
    by auto
  obtain result remaining s3 where
    loop: "sync_loop respond 0 pending
             \<lparr>synced_answers = 0, failed_answers = 0, new_xp = 0, errors = []\<rparr> []
             (?s1\<lparr>storage_faults := True # fs\<rparr>) = ((result, remaining), s3)"
    by (metis surj_pair)
  have "snd (sync_loop respond 0 pending
             \<lparr>synced_answers = 0, failed_answers = 0, new_xp = 0, errors = []\<rparr> []
             (?s1\<lparr>storage_faults := True # fs\<rparr>)) =
        ?s1\<lparr>storage_faults := True # fs,
            api_log := api_log s @ map submission pending\<rparr>"
    by (simp add: sync_loop_state)
  with loop have "s3 = ?s1\<lparr>storage_faults := True # fs,
            api_log := api_log s @ map submission pending\<rparr>"
    by simp
  then have s3: "storage_faults s3 = True # fs"
    by simp
  show "fst (syncPendingAnswers (Some True) respond synced_at s) = Inl StorageError"
    using assms(1) p loop s3
    by (simp add: syncPendingAnswers_def checkOnline_def await_def resolve_def try_finally_def
          setItem_def storage_call_def)
  show "\<not> syncInProgress (snd (syncPendingAnswers (Some True) respond synced_at s))"
    using assms(1) p loop s3
    by (simp add: syncPendingAnswers_def checkOnline_def await_def resolve_def try_finally_def
          setItem_def storage_call_def)
qed

lemma first_write_fault_propagates:
  assumes "storage_faults s = True # fs"
  shows "fst (saveProgress now progress s) = Inl StorageError"
    and "fst (clearAllData s) = Inl StorageError"
proof -
  show "fst (saveProgress now progress s) = Inl StorageError"
    using assms by (simp add: saveProgress_def setItem_def storage_call_def)
  show "fst (clearAllData s) = Inl StorageError"
    using assms
    by (simp add: clearAllData_def both_def await_def removeItem_def storage_call_def
          split: prod.splits sum.splits)
qed

text \<open>
  C7, as the code has it. The functions that read the store inside try/catch never
  throw: \<open>getCachedQuestions\<close> (and \<open>getCacheCount\<close> on top of it),
  \<open>getPendingAnswers\<close>, \<open>getProgress\<close>, \<open>updateOfflineStats\<close> and
  \<open>getOfflineStats\<close>; when their read fails they return the empty list, zero, null
  or the zero statistics. A failing write is caught nowhere else: it is thrown to the
  caller by \<open>saveProgress\<close> and \<open>clearAllData\<close> (first call to the store failing) and
  by \<open>queueAnswer\<close>, \<open>cacheQuestions\<close>, \<open>clearExpiredCache\<close> and
  \<open>syncPendingAnswers\<close> (second call to the store, the write, failing); the last one
  still releases its guard.
\<close>

theorem storage_failures_caught_in_reads_only:
  "\<not> isl (fst (getCachedQuestions now topic s)) \<and>
   \<not> isl (fst (getCacheCount now topic s)) \<and>
   \<not> isl (fst (getPendingAnswers s)) \<and>
   \<not> isl (fst (getProgress s)) \<and>
   \<not> isl (fst (updateOfflineStats now answered s)) \<and>
   \<not> isl (fst (getOfflineStats now s)) \<and>
   (storage_faults s = True # fs \<longrightarrow>
      fst (getCachedQuestions now topic s) = Inr [] \<and>
      fst (getCacheCount now topic s) = Inr 0 \<and>
      fst (getPendingAnswers s) = Inr [] \<and>
      fst (getProgress s) = Inr None \<and>
      fst (getOfflineStats now s) =
        Inr \<lparr>sm_questions_answered_offline = 0, sm_pending_sync = 0,
             sm_cached_questions = 0, sm_last_sync = None\<rparr> \<and>
      fst (saveProgress now progress s) = Inl StorageError \<and>
      fst (clearAllData s) = Inl StorageError) \<and>
   (storage_faults s = f # True # fs \<longrightarrow>
      fst (queueAnswer id_at answered_at stats_at question_id user_answer response_time_ms
             topic_slug s) = Inl StorageError \<and>
      fst (cacheQuestions (Some True) now fetch clock read_at sweep topic_slug count
             difficulty_tier s) = Inl StorageError \<and>
      fst (clearExpiredCache read_at now s) = Inl StorageError \<and>
      (\<not> syncInProgress s \<longrightarrow>
         fst (syncPendingAnswers (Some True) respond synced_at s) = Inl StorageError \<and>
         \<not> syncInProgress (snd (syncPendingAnswers (Some True) respond synced_at s))))"
proof (intro conjI impI)
  show "\<not> isl (fst (getCachedQuestions now topic s))"
    and "\<not> isl (fst (getCacheCount now topic s))"
    and "\<not> isl (fst (getPendingAnswers s))"
    and "\<not> isl (fst (getProgress s))"
    and "\<not> isl (fst (updateOfflineStats now answered s))"
    by (rule guarded_reads_resolve)+
  show "\<not> isl (fst (getOfflineStats now s))"
    by (rule getOfflineStats_resolves)
next
  assume a: "storage_faults s = True # fs"
  show "fst (getCachedQuestions now topic s) = Inr []"
    by (simp add: read_fault_defaults(1) [OF a])
  show "fst (getCacheCount now topic s) = Inr 0"
    by (simp add: read_fault_defaults(2) [OF a])
  show "fst (getPendingAnswers s) = Inr []"
    by (simp add: read_fault_defaults(3) [OF a])
  show "fst (getProgress s) = Inr None"
    by (simp add: read_fault_defaults(4) [OF a])
  show "fst (getOfflineStats now s) =
        Inr \<lparr>sm_questions_answered_offline = 0, sm_pending_sync = 0,
             sm_cached_questions = 0, sm_last_sync = None\<rparr>"
    by (rule read_fault_defaults(6) [OF a])
  show "fst (saveProgress now progress s) = Inl StorageError"
    by (rule first_write_fault_propagates(1) [OF a])
  show "fst (clearAllData s) = Inl StorageError"
    by (rule first_write_fault_propagates(2) [OF a])
next
  assume a: "storage_faults s = f # True # fs"
  show "fst (queueAnswer id_at answered_at stats_at question_id user_answer response_time_ms
             topic_slug s) = Inl StorageError"
    by (rule write_fault_propagates(1) [OF a])
  show "fst (cacheQuestions (Some True) now fetch clock read_at sweep topic_slug count
             difficulty_tier s) = Inl StorageError"
    by (rule write_fault_propagates(2) [OF a])
  show "fst (clearExpiredCache read_at now s) = Inl StorageError"
    by (rule write_fault_propagates(3) [OF a])
  assume b: "\<not> syncInProgress s"
  show "fst (syncPendingAnswers (Some True) respond synced_at s) = Inl StorageError"
    by (rule sync_write_fault_propagates(1) [OF b a])
  show "\<not> syncInProgress (snd (syncPendingAnswers (Some True) respond synced_at s))"
    by (rule sync_write_fault_propagates(2) [OF b a])
qed

text \<open>
  A store whose next call fails, and a store whose next call works and whose call after
  that fails.
\<close>

theorem storage_failures_caught_in_reads_only_witness:
  "(let s1 = (initial_state :: nat state)\<lparr>storage_faults := [True]\<rparr>;
        s2 = (initial_state :: nat state)\<lparr>storage_faults := [False, True]\<rparr>
    in storage_faults s1 = True # [] \<and>
       fst (getCachedQuestions 1000 None s1) = Inr [] \<and>
       fst (getPendingAnswers s1) = Inr [] \<and>
       fst (getProgress s1) = Inr None \<and>
       storage_faults s2 = False # True # [] \<and>
       \<not> syncInProgress s2 \<and>
       fst (queueAnswer 1000 1000 1000 ''q1'' ''4'' 900 ''arithmetic'' s2) = Inl StorageError \<and>
       fst (clearExpiredCache 1000 1000 s2) = Inl StorageError \<and>
       fst (syncPendingAnswers (Some True) (\<lambda>k. Inl (ApiError ''down'')) 1000 s2) =
         Inl StorageError)"
proof -
  let ?s1 = "(initial_state :: nat state)\<lparr>storage_faults := [True]\<rparr>"
  let ?s2 = "(initial_state :: nat state)\<lparr>storage_faults := [False, True]\<rparr>"
  have f1: "storage_faults ?s1 = True # []" by simp
  have f2: "storage_faults ?s2 = False # True # []" by simp
  have n2: "\<not> syncInProgress ?s2" by (simp add: initial_state_def)
  note i1 = storage_failures_caught_in_reads_only
    [where now = 1000 and topic = None and s = ?s1 and fs = "[]" and f = False
       and id_at = 1000 and answered_at = 1000 and stats_at = 1000 and question_id = "''q1''"
       and user_answer = "''4''" and response_time_ms = 900 and topic_slug = "''arithmetic''"
       and read_at = 1000 and respond = "\<lambda>k. Inl (ApiError ''down'')" and synced_at = 1000]
  note i2 = storage_failures_caught_in_reads_only
    [where now = 1000 and topic = None and s = ?s2 and fs = "[]" and f = False
       and id_at = 1000 and answered_at = 1000 and stats_at = 1000 and question_id = "''q1''"
       and user_answer = "''4''" and response_time_ms = 900 and topic_slug = "''arithmetic''"
       and read_at = 1000 and respond = "\<lambda>k. Inl (ApiError ''down'')" and synced_at = 1000]
  from i1 f1 have r: "fst (getCachedQuestions 1000 None ?s1) = Inr [] \<and>
       fst (getPendingAnswers ?s1) = Inr [] \<and> fst (getProgress ?s1) = Inr None"
    by blast
  from i2 f2 n2 have w:
    "fst (queueAnswer 1000 1000 1000 ''q1'' ''4'' 900 ''arithmetic'' ?s2) = Inl StorageError \<and>
     fst (clearExpiredCache 1000 1000 ?s2) = Inl StorageError \<and>
     fst (syncPendingAnswers (Some True) (\<lambda>k. Inl (ApiError ''down'')) 1000 ?s2) =
       Inl StorageError"
    by blast
  from f1 f2 n2 r w show ?thesis
    unfolding Let_def by (intro conjI) blast+
qed

text \<open>
  Against C7 as stated: the store fails when \<open>queueAnswer\<close> writes the queue, and
  \<open>queueAnswer\<close> throws; the answer is not queued.
\<close>

theorem queueAnswer_throws_on_write_failure:
  "queueAnswer 1000 1000 1000 ''q1'' ''4'' 900 ''arithmetic''
     ((initial_state :: nat state)\<lparr>storage_faults := [False, True]\<rparr>) =
   (Inl StorageError, initial_state)"
  by (simp add: queueAnswer_def getPendingAnswers_def await_def try_catch_def resolve_def
        getItem_def setItem_def storage_call_def Let_def initial_state_def)

end
